theory Spec2Isabelle
  imports Main "HOL-Library.Word" "HOL-Library.Multiset" "HOL-Library.List_Lexorder"
    "HOL-Library.Char_ord"
begin

section \<open>Dusty: a shallow embedding of the directory scanner and its tree browser\<close>

text \<open>
  The program is one Go file. Its data are \<^verbatim>\<open>DirInfo\<close> nodes linked by pointers in
  both directions (\<^verbatim>\<open>Children\<close> downwards, \<^verbatim>\<open>Parent\<close> upwards), the Bubble Tea
  \<^verbatim>\<open>model\<close> that holds pointers into that graph, and two package-level variables.
  Pointers are addresses into an explicit heap, \<^verbatim>\<open>nil\<close> is \<open>None\<close>, \<^verbatim>\<open>int64\<close> is a
  64-bit word (addition wraps, comparison is signed) and Go's \<^verbatim>\<open>int\<close> is \<open>int\<close>.
\<close>

subsection \<open>Basic types\<close>

type_synonym addr = nat
type_synonym int64 = "64 word"

datatype error = IndexOutOfRange | StackExhausted

subsection \<open>formatSize\<close>














subsection \<open>The node store\<close>

text \<open>
  \<^verbatim>\<open>DirInfo\<close>, field by field. A \<^verbatim>\<open>*DirInfo\<close> is an address: the index of the node in the
  heap, a list that grows by one at every \<^verbatim>\<open>&DirInfo{...}\<close>. \<^verbatim>\<open>Children\<close> is a slice whose
  backing array no other slice shares, so it is a list value of the node. \<^verbatim>\<open>Error\<close> keeps
  the text of the error.
\<close>

record DirInfo =
  Path :: string
  Size :: int64
  Children :: "addr list"
  Parent :: "addr option"
  IsDir :: bool
  Error :: "string option"

type_synonym heap = "DirInfo list"

record scanProgressMsg =
  msg_root :: addr
  msg_filesScanned :: int
  msg_dirsScanned :: int
  msg_totalSize :: int64

subsection \<open>What the program takes from outside\<close>

text \<open>
  Four functions of the Go standard library are parameters of the model, so that every
  theorem holds for any implementation of them. Of \<^verbatim>\<open>sort.Slice\<close> only its contract is
  used (\<open>sort_contract\<close> below): it permutes the slice, and the result is ordered when the
  comparison is a strict weak order. It is not stable.
\<close>

record lib =
  sort_Slice :: "(addr \<Rightarrow> addr \<Rightarrow> bool) \<Rightarrow> addr list \<Rightarrow> addr list"
  filepath_Join :: "string \<Rightarrow> string \<Rightarrow> string"
  filepath_Base :: "string \<Rightarrow> string"
  strings_ToLower :: "string \<Rightarrow> string"

text \<open>
  The file system as one scan sees it: what \<^verbatim>\<open>os.Stat\<close> answers for a path and, for a
  directory, what \<^verbatim>\<open>os.ReadDir\<close> answers. \<open>StatFails\<close> is an entry whose \<^verbatim>\<open>os.Stat\<close> fails
  (a dangling link, an entry removed after it was listed), \<open>UnreadableDir\<close> a directory
  whose \<^verbatim>\<open>os.ReadDir\<close> fails.
\<close>

datatype fsnode =
    StatFails string
  | RegularFile int64
  | UnreadableDir string
  | Directory "(string \<times> fsnode) list"

text \<open>
  The mutable state outside the Bubble Tea model: the heap, the package-level variables
  \<^verbatim>\<open>currentRoot\<close> and \<^verbatim>\<open>progressChan\<close> (a buffered channel of capacity 100, here the list
  of pending messages), and the two counters that \<^verbatim>\<open>scanDirectory\<close> passes by pointer.
\<close>

record machine =
  heap :: heap
  currentRoot :: "addr option"
  progressChan :: "scanProgressMsg list"
  filesCount :: int
  dirsCount :: int

text \<open>The non-blocking send \<^verbatim>\<open>select { case progressChan <- p: default: }\<close>.\<close>

definition send_progress :: "scanProgressMsg \<Rightarrow> scanProgressMsg list \<Rightarrow> scanProgressMsg list" where
  "send_progress p ch = (if length ch < 100 then ch @ [p] else ch)"

text \<open>The comparison \<^verbatim>\<open>Children[i].Size > Children[j].Size\<close> on \<^verbatim>\<open>int64\<close>.\<close>

definition bySizeDesc :: "heap \<Rightarrow> addr \<Rightarrow> addr \<Rightarrow> bool" where
  "bySizeDesc h x y \<longleftrightarrow> sint (Size (h ! y)) < sint (Size (h ! x))"

subsection \<open>The scanner\<close>

text \<open>
  \<^verbatim>\<open>dirInfo := &DirInfo{Path: path, Parent: parent, IsDir: info.IsDir()}\<close> and the
  assignment of \<^verbatim>\<open>currentRoot\<close> on the first call.
\<close>

definition new_DirInfo :: "string \<Rightarrow> addr option \<Rightarrow> bool \<Rightarrow> machine \<Rightarrow> addr \<times> machine" where
  "new_DirInfo path parent isDir s =
     (let dirInfo = length (heap s);
          s1 = s\<lparr>heap := heap s @ [\<lparr>Path = path, Size = 0, Children = [], Parent = parent,
                                    IsDir = isDir, Error = None\<rparr>]\<rparr>
      in (dirInfo,
          if parent = None \<and> currentRoot s1 = None then s1\<lparr>currentRoot := Some dirInfo\<rparr> else s1))"

text \<open>
  The body of the loop once the child is there: the \<^verbatim>\<open>append\<close> to \<^verbatim>\<open>dirInfo.Children\<close>,
  \<^verbatim>\<open>totalSize += child.Size\<close> and, when \<^verbatim>\<open>dirInfo\<close> is the scan root, the incremental
  size and the progress message.
\<close>

definition attach_child :: "addr \<Rightarrow> addr \<Rightarrow> int64 \<Rightarrow> machine \<Rightarrow> int64 \<times> machine" where
  "attach_child dirInfo child totalSize s =
     (let h1 = (heap s)[dirInfo := (heap s ! dirInfo)
                  \<lparr>Children := Children (heap s ! dirInfo) @ [child]\<rparr>];
          totalSize1 = totalSize + Size (h1 ! child);
          s1 = s\<lparr>heap := h1\<rparr>
      in (totalSize1,
          if currentRoot s1 = Some dirInfo
          then s1\<lparr>heap := (heap s1)[dirInfo := (heap s1 ! dirInfo)\<lparr>Size := totalSize1\<rparr>],
                  progressChan := send_progress
                    \<lparr>msg_root = dirInfo, msg_filesScanned = filesCount s1,
                     msg_dirsScanned = dirsCount s1, msg_totalSize = totalSize1\<rparr>
                    (progressChan s1)\<rparr>
          else s1))"

text \<open>
  \<^verbatim>\<open>calculateDirSizeWithProgress\<close>; \<open>Inl\<close> is the return \<^verbatim>\<open>(nil, err)\<close>, \<open>Inr\<close> the return
  \<^verbatim>\<open>(dirInfo, nil)\<close>. \<open>scanEntries\<close> is its loop \<^verbatim>\<open>for _, entry := range entries\<close>, with
  the running \<^verbatim>\<open>totalSize\<close>.
\<close>

fun calculateDirSizeWithProgress ::
    "lib \<Rightarrow> string \<Rightarrow> addr option \<Rightarrow> fsnode \<Rightarrow> machine \<Rightarrow> (string + addr) \<times> machine"
  and scanEntries ::
    "lib \<Rightarrow> string \<Rightarrow> addr \<Rightarrow> (string \<times> fsnode) list \<Rightarrow> int64 \<Rightarrow> machine \<Rightarrow> int64 \<times> machine"
where
  "calculateDirSizeWithProgress L path parent (StatFails err) s = (Inl err, s)"
| "calculateDirSizeWithProgress L path parent (RegularFile sz) s =
     (case new_DirInfo path parent False s of
        (dirInfo, s1) \<Rightarrow>
          (Inr dirInfo,
           s1\<lparr>heap := (heap s1)[dirInfo := (heap s1 ! dirInfo)\<lparr>Size := sz\<rparr>],
              filesCount := filesCount s1 + 1\<rparr>))"
| "calculateDirSizeWithProgress L path parent (UnreadableDir err) s =
     (case new_DirInfo path parent True s of
        (dirInfo, s1) \<Rightarrow>
          (Inr dirInfo,
           s1\<lparr>dirsCount := dirsCount s1 + 1,
              heap := (heap s1)[dirInfo := (heap s1 ! dirInfo)\<lparr>Error := Some err\<rparr>]\<rparr>))"
| "calculateDirSizeWithProgress L path parent (Directory entries) s =
     (case new_DirInfo path parent True s of
        (dirInfo, s1) \<Rightarrow>
          (case scanEntries L path dirInfo entries 0 (s1\<lparr>dirsCount := dirsCount s1 + 1\<rparr>) of
             (totalSize, s2) \<Rightarrow>
               let h1 = (heap s2)[dirInfo := (heap s2 ! dirInfo)\<lparr>Size := totalSize\<rparr>];
                   h2 = h1[dirInfo := (h1 ! dirInfo)
                           \<lparr>Children := sort_Slice L (bySizeDesc h1) (Children (h1 ! dirInfo))\<rparr>]
               in (Inr dirInfo, s2\<lparr>heap := h2\<rparr>)))"
| "scanEntries L path dirInfo [] totalSize s = (totalSize, s)"
| "scanEntries L path dirInfo ((name, node) # entries) totalSize s =
     (case calculateDirSizeWithProgress L (filepath_Join L path name) (Some dirInfo) node s of
        (Inl err, s1) \<Rightarrow> scanEntries L path dirInfo entries totalSize s1
      | (Inr child, s1) \<Rightarrow>
          (case attach_child dirInfo child totalSize s1 of
             (totalSize1, s2) \<Rightarrow> scanEntries L path dirInfo entries totalSize1 s2))"

text \<open>
  The end of the directory case, after the loop: \<^verbatim>\<open>dirInfo.Size = totalSize\<close> and the
  \<^verbatim>\<open>sort.Slice\<close> by descending size.
\<close>

definition finish_dir :: "lib \<Rightarrow> addr \<Rightarrow> int64 \<Rightarrow> heap \<Rightarrow> heap" where
  "finish_dir L d tot h =
     (let h1 = h[d := (h ! d)\<lparr>Size := tot\<rparr>]
      in h1[d := (h1 ! d)\<lparr>Children := sort_Slice L (bySizeDesc h1) (Children (h1 ! d))\<rparr>])"

text \<open>The final progress update of \<^verbatim>\<open>scanDirectory\<close>.\<close>

definition scanDirectory_final :: "machine \<Rightarrow> machine" where
  "scanDirectory_final s =
     (case currentRoot s of
        None \<Rightarrow> s
      | Some r \<Rightarrow>
          s\<lparr>progressChan := send_progress
               \<lparr>msg_root = r, msg_filesScanned = filesCount s, msg_dirsScanned = dirsCount s,
                msg_totalSize = Size (heap s ! r)\<rparr> (progressChan s)\<rparr>)"

subsection \<open>The Bubble Tea model, its messages and commands\<close>

text \<open>
  The fields of \<^verbatim>\<open>model\<close> but the two wall-clock ones (\<^verbatim>\<open>startTime\<close>, \<^verbatim>\<open>statusExpiry\<close>), which
  only the view reads.
\<close>

record model =
  rootDir :: "addr option"
  currentDir :: "addr option"
  cursor :: int
  scanning :: bool
  scanError :: "string option"
  width :: int
  height :: int
  sortBy :: string
  statusMsg :: string
  deleting :: bool
  deleteSpinner :: int
  deleteTarget :: "addr option"
  deleteFilename :: string
  scanProgress :: "addr option"
  filesScanned :: int
  dirsScanned :: int
  totalSize :: int64

datatype msg =
    WindowSizeMsg int int
  | ScanCompleteMsg "addr option" "string option"
  | ScanTickMsg
  | DeleteProgressMsg
  | DeleteCompleteMsg addr "string option" string
  | KeyMsg string

datatype cmd = Quit | ScanTick | DeleteProgress | DeleteFile addr

text \<open>
  \<^verbatim>\<open>scanDirectory\<close>, for the path of the command line and the file system found there.
\<close>

definition scanDirectory :: "lib \<Rightarrow> string \<Rightarrow> fsnode \<Rightarrow> machine \<Rightarrow> msg \<times> machine" where
  "scanDirectory L path fs s =
     (case calculateDirSizeWithProgress L path None fs
             (s\<lparr>filesCount := 0, dirsCount := 0, currentRoot := None\<rparr>) of
        (Inl err, s1) \<Rightarrow> (ScanCompleteMsg None (Some err), s1)
      | (Inr root, s1) \<Rightarrow> (ScanCompleteMsg (Some root) None, scanDirectory_final s1))"

definition initialModel :: model where
  "initialModel =
     \<lparr>rootDir = None, currentDir = None, cursor = 0, scanning = True, scanError = None,
      width = 0, height = 0, sortBy = ''size'', statusMsg = [], deleting = False,
      deleteSpinner = 0, deleteTarget = None, deleteFilename = [], scanProgress = None,
      filesScanned = 0, dirsScanned = 0, totalSize = 0\<rparr>"

text \<open>The index expression \<^verbatim>\<open>xs[i]\<close>, which panics out of range.\<close>

definition index_at :: "'a list \<Rightarrow> int \<Rightarrow> error + 'a" where
  "index_at xs i = (if 0 \<le> i \<and> i < int (length xs) then Inr (xs ! nat i) else Inl IndexOutOfRange)"

text \<open>
  The loops \<^verbatim>\<open>for i, child := range xs { if child == x { ...; break } }\<close>: the first index
  that holds the pointer \<open>x\<close>.
\<close>

fun indexOf :: "addr \<Rightarrow> addr list \<Rightarrow> nat option" where
  "indexOf x [] = None"
| "indexOf x (y # ys) = (if y = x then Some 0 else map_option Suc (indexOf x ys))"

text \<open>A \<^verbatim>\<open>range\<close> loop whose body may fail.\<close>

fun forEach :: "('s \<Rightarrow> 'a \<Rightarrow> error + 's) \<Rightarrow> 'a list \<Rightarrow> 's \<Rightarrow> error + 's" where
  "forEach body [] s = Inr s"
| "forEach body (x # xs) s = (case body s x of Inl e \<Rightarrow> Inl e | Inr s1 \<Rightarrow> forEach body xs s1)"

text \<open>
  The comparison of \<^verbatim>\<open>sortChildren\<close> in name mode. Go compares strings byte by byte, as the
  lexicographic order on \<open>char list\<close> does.
\<close>

definition byName :: "lib \<Rightarrow> heap \<Rightarrow> addr \<Rightarrow> addr \<Rightarrow> bool" where
  "byName L h x y \<longleftrightarrow>
     strings_ToLower L (filepath_Base L (Path (h ! x))) <
     strings_ToLower L (filepath_Base L (Path (h ! y)))"

definition lessFn :: "lib \<Rightarrow> string \<Rightarrow> heap \<Rightarrow> addr \<Rightarrow> addr \<Rightarrow> bool" where
  "lessFn L sb h = (if sb = ''name'' then byName L h else bySizeDesc h)"

text \<open>
  \<^verbatim>\<open>sortChildren\<close> and \<^verbatim>\<open>recalculateSizes\<close> are recursive and Go's goroutine stack is finite:
  \<open>stack\<close> is the number of nested calls it has room for, and a call beyond it is the
  fatal error \<open>StackExhausted\<close>.
\<close>

fun sortChildren :: "lib \<Rightarrow> nat \<Rightarrow> string \<Rightarrow> heap \<Rightarrow> addr option \<Rightarrow> error + heap" where
  "sortChildren L 0 sb h dir = Inl StackExhausted"
| "sortChildren L (Suc stack) sb h None = Inr h"
| "sortChildren L (Suc stack) sb h (Some dir) =
     (let h1 = h[dir := (h ! dir)
                  \<lparr>Children := sort_Slice L (lessFn L sb h) (Children (h ! dir))\<rparr>]
      in forEach (\<lambda>h' child. sortChildren L stack sb h' (Some child)) (Children (h1 ! dir)) h1)"

fun recalculateSizes :: "nat \<Rightarrow> heap \<Rightarrow> addr option \<Rightarrow> error + heap" where
  "recalculateSizes 0 h dir = Inl StackExhausted"
| "recalculateSizes (Suc stack) h None = Inr h"
| "recalculateSizes (Suc stack) h (Some dir) =
     (let totalSize = foldl (\<lambda>t child. t + Size (h ! child)) 0 (Children (h ! dir));
          h1 = h[dir := (h ! dir)\<lparr>Size := totalSize\<rparr>]
      in if Parent (h1 ! dir) \<noteq> None then recalculateSizes stack h1 (Parent (h1 ! dir))
         else Inr h1)"

subsection \<open>Update\<close>

text \<open>The case \<^verbatim>\<open>deleteCompleteMsg\<close> of \<^verbatim>\<open>Update\<close>.\<close>

definition deleteComplete ::
    "nat \<Rightarrow> model \<Rightarrow> machine \<Rightarrow> addr \<Rightarrow> string option \<Rightarrow> string \<Rightarrow> error + model \<times> machine \<times> cmd list" where
  "deleteComplete stack m0 s target err filename =
     (let m = m0\<lparr>deleting := False\<rparr>
      in case err of
           Some e \<Rightarrow> Inr (m\<lparr>statusMsg := ''Error deleting: '' @ e\<rparr>, s, [])
         | None \<Rightarrow>
             (let m1 = m\<lparr>statusMsg := ''Deleted: '' @ filename\<rparr>
              in case currentDir m1 of
                   None \<Rightarrow> Inr (m1, s, [])
                 | Some cur \<Rightarrow>
                     if length (Children (heap s ! cur)) > 0
                     then (let (m2, h2) =
                                 (case indexOf target (Children (heap s ! cur)) of
                                    None \<Rightarrow> (m1, heap s)
                                  | Some i \<Rightarrow>
                                      (let cs = Children (heap s ! cur);
                                           cs' = take i cs @ drop (i + 1) cs;
                                           h' = (heap s)[cur := (heap s ! cur)\<lparr>Children := cs'\<rparr>]
                                       in (if cursor m1 \<ge> int (length cs') \<and> cursor m1 > 0
                                           then m1\<lparr>cursor := cursor m1 - 1\<rparr> else m1, h')))
                           in case recalculateSizes stack h2 (currentDir m2) of
                                Inl e \<Rightarrow> Inl e
                              | Inr h3 \<Rightarrow> Inr (m2, s\<lparr>heap := h3\<rparr>, []))
                     else Inr (m1, s, [])))"

text \<open>
  The case \<^verbatim>\<open>tea.KeyMsg\<close> of \<^verbatim>\<open>Update\<close>. \<open>switch_label\<close> is the \<^verbatim>\<open>switch msg.String()\<close>:
  the case that a key selects. \<open>keyAction\<close> is the body of each case, in the order of
  the source.
\<close>

datatype label =
  CaseQuit | CaseUp | CaseDown | CaseEnter | CaseLeft | CaseSort | CaseHome | CaseDelete | NoCase

definition switch_label :: "string \<Rightarrow> label" where
  "switch_label key =
     (if key = ''ctrl+c'' \<or> key = ''q'' then CaseQuit
      else if key = ''up'' \<or> key = ''k'' then CaseUp
      else if key = ''down'' \<or> key = ''j'' then CaseDown
      else if key = ''enter'' \<or> key = ''right'' \<or> key = ''l'' then CaseEnter
      else if key = ''left'' \<or> key = ''h'' \<or> key = ''backspace'' then CaseLeft
      else if key = ''s'' then CaseSort
      else if key = ''home'' then CaseHome
      else if key = ''d'' then CaseDelete
      else NoCase)"

fun keyAction ::
    "lib \<Rightarrow> nat \<Rightarrow> model \<Rightarrow> machine \<Rightarrow> label \<Rightarrow> error + model \<times> machine \<times> cmd list" where
  "keyAction L stack m s CaseQuit = Inr (m, s, [Quit])"
| "keyAction L stack m s CaseUp =
     Inr (if cursor m > 0 then m\<lparr>cursor := cursor m - 1\<rparr> else m, s, [])"
| "keyAction L stack m s CaseDown =
     Inr (case currentDir m of
            None \<Rightarrow> m
          | Some cur \<Rightarrow>
              if cursor m < int (length (Children (heap s ! cur))) - 1
              then m\<lparr>cursor := cursor m + 1\<rparr> else m, s, [])"
| "keyAction L stack m s CaseEnter =
     (case currentDir m of
        None \<Rightarrow> Inr (m, s, [])
      | Some cur \<Rightarrow>
          if length (Children (heap s ! cur)) > 0
          then (case index_at (Children (heap s ! cur)) (cursor m) of
                  Inl e \<Rightarrow> Inl e
                | Inr selected \<Rightarrow>
                    if IsDir (heap s ! selected) \<and> length (Children (heap s ! selected)) > 0
                    then Inr (m\<lparr>currentDir := Some selected, cursor := 0\<rparr>, s, [])
                    else Inr (m, s, []))
          else Inr (m, s, []))"
| "keyAction L stack m s CaseLeft =
     (case currentDir m of
        None \<Rightarrow> Inr (m, s, [])
      | Some cur \<Rightarrow>
          (case Parent (heap s ! cur) of
             None \<Rightarrow> Inr (m, s, [])
           | Some parent \<Rightarrow>
               let m1 = (case indexOf cur (Children (heap s ! parent)) of
                           None \<Rightarrow> m
                         | Some i \<Rightarrow> m\<lparr>cursor := int i\<rparr>)
               in Inr (m1\<lparr>currentDir := Some parent\<rparr>, s, [])))"
| "keyAction L stack m s CaseSort =
     (let m1 = (if sortBy m = ''size'' then m\<lparr>sortBy := ''name''\<rparr>
                else m\<lparr>sortBy := ''size''\<rparr>)
      in case sortChildren L stack (sortBy m1) (heap s) (rootDir m1) of
           Inl e \<Rightarrow> Inl e
         | Inr h1 \<Rightarrow> Inr (m1\<lparr>cursor := 0\<rparr>, s\<lparr>heap := h1\<rparr>, []))"
| "keyAction L stack m s CaseHome = Inr (m\<lparr>currentDir := rootDir m, cursor := 0\<rparr>, s, [])"
| "keyAction L stack m s CaseDelete =
     (case currentDir m of
        None \<Rightarrow> Inr (m, s, [])
      | Some cur \<Rightarrow>
          if length (Children (heap s ! cur)) > 0
          then (case index_at (Children (heap s ! cur)) (cursor m) of
                  Inl e \<Rightarrow> Inl e
                | Inr target \<Rightarrow>
                    Inr (m\<lparr>deleteTarget := Some target,
                           deleteFilename := filepath_Base L (Path (heap s ! target)),
                           deleting := True, deleteSpinner := 0\<rparr>,
                         s, [DeleteFile target, DeleteProgress]))
          else Inr (m, s, []))"
| "keyAction L stack m s NoCase = Inr (m, s, [])"

definition keyPressed ::
    "lib \<Rightarrow> nat \<Rightarrow> model \<Rightarrow> machine \<Rightarrow> string \<Rightarrow> error + model \<times> machine \<times> cmd list" where
  "keyPressed L stack m s key =
     (if scanning m \<or> deleting m
      then (if key = ''ctrl+c'' \<or> key = ''q'' then Inr (m, s, [Quit]) else Inr (m, s, []))
      else keyAction L stack m s (switch_label key))"

text \<open>
  \<^verbatim>\<open>Update\<close>: the new model, the state it left behind the pointers, and the commands it
  returns (\<^verbatim>\<open>nil\<close> is the empty list, \<^verbatim>\<open>tea.Batch\<close> a list of two). \<open>Inl\<close> is a panic.
\<close>

fun Update :: "lib \<Rightarrow> nat \<Rightarrow> model \<Rightarrow> machine \<Rightarrow> msg \<Rightarrow> error + model \<times> machine \<times> cmd list" where
  "Update L stack m s (WindowSizeMsg w h) = Inr (m\<lparr>width := w, height := h\<rparr>, s, [])"
| "Update L stack m s (ScanCompleteMsg root err) =
     Inr (m\<lparr>scanning := False, rootDir := root, currentDir := root, scanError := err,
            scanProgress := None\<rparr>, s, [])"
| "Update L stack m s ScanTickMsg =
     (if scanning m
      then (case progressChan s of
              [] \<Rightarrow> Inr (m, s, [ScanTick])
            | progress # rest \<Rightarrow>
                Inr (m\<lparr>scanProgress := Some (msg_root progress),
                       filesScanned := msg_filesScanned progress,
                       dirsScanned := msg_dirsScanned progress,
                       totalSize := msg_totalSize progress\<rparr>,
                     s\<lparr>progressChan := rest\<rparr>, [ScanTick]))
      else Inr (m, s, []))"
| "Update L stack m s DeleteProgressMsg =
     (if deleting m
      then Inr (m\<lparr>deleteSpinner := (deleteSpinner m + 1) mod 10\<rparr>, s, [DeleteProgress])
      else Inr (m, s, []))"
| "Update L stack m s (DeleteCompleteMsg target err filename) =
     deleteComplete stack m s target err filename"
| "Update L stack m s (KeyMsg key) = keyPressed L stack m s key"

text \<open>
  The entries that the scanning view lists under \<^verbatim>\<open>Largest items found\<close>: the first five
  children of the node that the last progress message points to.
\<close>

definition View_largest :: "model \<Rightarrow> machine \<Rightarrow> addr list" where
  "View_largest m s =
     (case scanProgress m of
        None \<Rightarrow> []
      | Some r \<Rightarrow>
          (let limit = (if length (Children (heap s ! r)) < 5 then length (Children (heap s ! r)) else 5)
           in map (\<lambda>i. Children (heap s ! r) ! i) [0..<limit]))"

subsection \<open>A session\<close>

text \<open>
  The Bubble Tea runtime delivers one message at a time to \<^verbatim>\<open>Update\<close>. A session is the
  scan followed by a list of events: keys, window sizes, the two timers, and the end of
  the \<^verbatim>\<open>os.RemoveAll\<close> that a \<^verbatim>\<open>deleteFile\<close> command started, with its error if any
  (\<open>inflight\<close> is the target of the command that is running). Keys that arrive during the
  scan change nothing but to quit, so the session starts at the message that ends the scan.
  A session ends at \<^verbatim>\<open>tea.Quit\<close>.
\<close>

record world =
  mdl :: model
  mach :: machine
  inflight :: "addr option"

datatype event = Key string | Resize int int | Tick | Spin | DeleteDone "string option"

definition empty_machine :: machine where
  "empty_machine = \<lparr>heap = [], currentRoot = None, progressChan = [], filesCount = 0, dirsCount = 0\<rparr>"

fun started :: "cmd list \<Rightarrow> addr option \<Rightarrow> addr option" where
  "started [] running = running"
| "started (DeleteFile target # cmds) running = started cmds (Some target)"
| "started (c # cmds) running = started cmds running"

definition deliver :: "lib \<Rightarrow> nat \<Rightarrow> world \<Rightarrow> event \<Rightarrow> error + world \<times> bool" where
  "deliver L stack w ev =
     (let message =
            (case ev of
               Key k \<Rightarrow> Some (KeyMsg k)
             | Resize x y \<Rightarrow> Some (WindowSizeMsg x y)
             | Tick \<Rightarrow> Some ScanTickMsg
             | Spin \<Rightarrow> Some DeleteProgressMsg
             | DeleteDone err \<Rightarrow>
                 (case inflight w of
                    None \<Rightarrow> None
                  | Some target \<Rightarrow>
                      Some (DeleteCompleteMsg target err
                              (filepath_Base L (Path (heap (mach w) ! target))))));
          running = (case ev of DeleteDone err \<Rightarrow> None | _ \<Rightarrow> inflight w)
      in case message of
           None \<Rightarrow> Inr (w, False)
         | Some x \<Rightarrow>
             (case Update L stack (mdl w) (mach w) x of
                Inl e \<Rightarrow> Inl e
              | Inr (m', s', cmds) \<Rightarrow>
                  Inr (\<lparr>mdl = m', mach = s', inflight = started cmds running\<rparr>, Quit \<in> set cmds)))"

fun run :: "lib \<Rightarrow> nat \<Rightarrow> world \<Rightarrow> event list \<Rightarrow> error + world" where
  "run L stack w [] = Inr w"
| "run L stack w (ev # evs) =
     (case deliver L stack w ev of
        Inl e \<Rightarrow> Inl e
      | Inr (w', quit) \<Rightarrow> if quit then Inr w' else run L stack w' evs)"

text \<open>The world when \<^verbatim>\<open>Update\<close> has handled the \<^verbatim>\<open>scanCompleteMsg\<close> of the scan.\<close>

definition scanned :: "lib \<Rightarrow> nat \<Rightarrow> string \<Rightarrow> fsnode \<Rightarrow> error + world" where
  "scanned L stack path fs =
     (case scanDirectory L path fs empty_machine of
        (message, s) \<Rightarrow>
          (case Update L stack initialModel s message of
             Inl e \<Rightarrow> Inl e
           | Inr (m, s', cmds) \<Rightarrow> Inr \<lparr>mdl = m, mach = s', inflight = None\<rparr>))"

definition session :: "lib \<Rightarrow> nat \<Rightarrow> string \<Rightarrow> fsnode \<Rightarrow> event list \<Rightarrow> error + world" where
  "session L stack path fs evs =
     (case scanned L stack path fs of Inl e \<Rightarrow> Inl e | Inr w \<Rightarrow> run L stack w evs)"

subsection \<open>The vocabulary of the properties\<close>

text \<open>\<open>in_tree h r d\<close>: the node \<open>d\<close> is \<open>r\<close> or is below it along \<^verbatim>\<open>Children\<close>.\<close>

inductive in_tree :: "heap \<Rightarrow> addr \<Rightarrow> addr \<Rightarrow> bool" for h :: heap and r :: addr where
  in_tree_root: "in_tree h r r"
| in_tree_child: "in_tree h r a \<Longrightarrow> c \<in> set (Children (h ! a)) \<Longrightarrow> in_tree h r c"

definition child_sum :: "heap \<Rightarrow> addr \<Rightarrow> int64" where
  "child_sum h a = sum_list (map (\<lambda>c. Size (h ! c)) (Children (h ! a)))"

text \<open>
  The shape that the scanner builds: a child is allocated after its parent and points
  back to it, no node has a child twice, and only directories have children.
\<close>

definition node_ok :: "heap \<Rightarrow> addr \<Rightarrow> bool" where
  "node_ok h a \<longleftrightarrow>
     (\<forall>c \<in> set (Children (h ! a)). a < c \<and> c < length h \<and> Parent (h ! c) = Some a) \<and>
     distinct (Children (h ! a)) \<and>
     (\<forall>p. Parent (h ! a) = Some p \<longrightarrow> p < a) \<and>
     (Children (h ! a) \<noteq> [] \<longrightarrow> IsDir (h ! a))"

definition size_ok :: "heap \<Rightarrow> addr \<Rightarrow> bool" where
  "size_ok h a \<longleftrightarrow> (IsDir (h ! a) \<longrightarrow> Size (h ! a) = child_sum h a)"

definition struct_ok :: "heap \<Rightarrow> bool" where
  "struct_ok h \<longleftrightarrow> (\<forall>a < length h. node_ok h a)"

definition sizes_ok :: "heap \<Rightarrow> bool" where
  "sizes_ok h \<longleftrightarrow> (\<forall>a < length h. size_ok h a)"

text \<open>During the scan: every node from address \<open>n\<close> on is complete.\<close>

definition new_ok :: "nat \<Rightarrow> heap \<Rightarrow> bool" where
  "new_ok n h \<longleftrightarrow> (\<forall>a. n \<le> a \<longrightarrow> a < length h \<longrightarrow> node_ok h a \<and> size_ok h a)"

text \<open>
  What a call of \<open>calculateDirSizeWithProgress\<close> leaves: nothing on a failed
  \<^verbatim>\<open>os.Stat\<close>; otherwise a new node at the next address, complete with all below it, and
  every older node as it was. What the loop leaves: the directory \<open>d\<close> with more
  children, its running total, and every other older node as it was.
\<close>

definition calc_post :: "addr option \<Rightarrow> machine \<Rightarrow> (string + addr) \<times> machine \<Rightarrow> bool" where
  "calc_post parent s res =
     (case res of
        (Inl e, s') \<Rightarrow> s' = s
      | (Inr d, s') \<Rightarrow>
          d = length (heap s) \<and> d < length (heap s') \<and>
          (\<forall>b < d. heap s' ! b = heap s ! b) \<and>
          Parent (heap s' ! d) = parent \<and> new_ok d (heap s'))"

definition loop_post :: "addr \<Rightarrow> machine \<Rightarrow> int64 \<times> machine \<Rightarrow> bool" where
  "loop_post d s res =
     (case res of
        (tot', s') \<Rightarrow>
          length (heap s) \<le> length (heap s') \<and>
          (\<forall>b < length (heap s). b \<noteq> d \<longrightarrow> heap s' ! b = heap s ! b) \<and>
          node_ok (heap s') d \<and> IsDir (heap s' ! d) \<and>
          Parent (heap s' ! d) = Parent (heap s ! d) \<and>
          set (Children (heap s ! d)) \<subseteq> set (Children (heap s' ! d)) \<and>
          tot' = child_sum (heap s') d \<and> new_ok (length (heap s)) (heap s'))"

text \<open>Two heaps that differ in the order of children only.\<close>

definition same_shape :: "heap \<Rightarrow> heap \<Rightarrow> bool" where
  "same_shape h h' \<longleftrightarrow>
     length h' = length h \<and>
     (\<forall>a < length h.
        Path (h' ! a) = Path (h ! a) \<and> Size (h' ! a) = Size (h ! a) \<and>
        Parent (h' ! a) = Parent (h ! a) \<and> IsDir (h' ! a) = IsDir (h ! a) \<and>
        Error (h' ! a) = Error (h ! a) \<and>
        mset (Children (h' ! a)) = mset (Children (h ! a)))"

text \<open>Two heaps that differ in sizes only.\<close>

definition same_links :: "heap \<Rightarrow> heap \<Rightarrow> bool" where
  "same_links h h' \<longleftrightarrow>
     length h' = length h \<and>
     (\<forall>a < length h.
        Path (h' ! a) = Path (h ! a) \<and> Children (h' ! a) = Children (h ! a) \<and>
        Parent (h' ! a) = Parent (h ! a) \<and> IsDir (h' ! a) = IsDir (h ! a) \<and>
        Error (h' ! a) = Error (h ! a))"

definition children_sorted :: "lib \<Rightarrow> string \<Rightarrow> heap \<Rightarrow> addr \<Rightarrow> bool" where
  "children_sorted L sb h a \<longleftrightarrow> sorted_wrt (\<lambda>x y. \<not> lessFn L sb h y x) (Children (h ! a))"

text \<open>The contract of \<^verbatim>\<open>sort.Slice\<close>.\<close>

definition strict_weak_order :: "('a \<Rightarrow> 'a \<Rightarrow> bool) \<Rightarrow> bool" where
  "strict_weak_order lt \<longleftrightarrow>
     (\<forall>x. \<not> lt x x) \<and> (\<forall>x y z. lt x y \<longrightarrow> lt y z \<longrightarrow> lt x z) \<and>
     (\<forall>x y z. \<not> lt x y \<longrightarrow> \<not> lt y z \<longrightarrow> \<not> lt x z)"

definition sort_contract :: "((addr \<Rightarrow> addr \<Rightarrow> bool) \<Rightarrow> addr list \<Rightarrow> addr list) \<Rightarrow> bool" where
  "sort_contract srt \<longleftrightarrow>
     (\<forall>lt xs. mset (srt lt xs) = mset xs) \<and>
     (\<forall>lt xs. strict_weak_order lt \<longrightarrow> sorted_wrt (\<lambda>x y. \<not> lt y x) (srt lt xs))"

text \<open>The cursor is an index of the current node's children, or 0 when there are none.\<close>

definition cursor_ok :: "model \<Rightarrow> heap \<Rightarrow> bool" where
  "cursor_ok m h \<longleftrightarrow>
     0 \<le> cursor m \<and>
     (case currentDir m of
        None \<Rightarrow> cursor m = 0
      | Some cur \<Rightarrow> cursor m \<le> max 0 (int (length (Children (h ! cur))) - 1))"

text \<open>The invariant of a session after the scan.\<close>

definition world_ok :: "world \<Rightarrow> bool" where
  "world_ok w \<longleftrightarrow>
     struct_ok (heap (mach w)) \<and> sizes_ok (heap (mach w)) \<and> \<not> scanning (mdl w) \<and>
     cursor_ok (mdl w) (heap (mach w)) \<and>
     (case rootDir (mdl w) of
        None \<Rightarrow> currentDir (mdl w) = None
      | Some r \<Rightarrow>
          r < length (heap (mach w)) \<and> Parent (heap (mach w) ! r) = None \<and>
          (\<exists>cur. currentDir (mdl w) = Some cur \<and> in_tree (heap (mach w)) r cur)) \<and>
     (deleting (mdl w) \<longleftrightarrow> inflight w \<noteq> None) \<and>
     (\<forall>t. inflight w = Some t \<longrightarrow>
        (\<exists>cur. currentDir (mdl w) = Some cur \<and> t \<in> set (Children (heap (mach w) ! cur))))"

subsection \<open>An instance of the library, for the examples\<close>

fun insert_by :: "('a \<Rightarrow> 'a \<Rightarrow> bool) \<Rightarrow> 'a \<Rightarrow> 'a list \<Rightarrow> 'a list" where
  "insert_by lt x [] = [x]"
| "insert_by lt x (y # ys) = (if lt x y then x # y # ys else y # insert_by lt x ys)"

definition insertion_sort :: "('a \<Rightarrow> 'a \<Rightarrow> bool) \<Rightarrow> 'a list \<Rightarrow> 'a list" where
  "insertion_sort lt xs = foldr (insert_by lt) xs []"

definition lastElem :: "string \<Rightarrow> string" where
  "lastElem p = rev (takeWhile (\<lambda>c. c \<noteq> CHR ''/'') (rev p))"

definition asciiLower :: "char \<Rightarrow> char" where
  "asciiLower c =
     (case map_of (zip ''ABCDEFGHIJKLMNOPQRSTUVWXYZ'' ''abcdefghijklmnopqrstuvwxyz'') c of
        None \<Rightarrow> c
      | Some l \<Rightarrow> l)"

definition sample_lib :: lib where
  "sample_lib = \<lparr>sort_Slice = insertion_sort, filepath_Join = (\<lambda>p n. p @ ''/'' @ n),
                  filepath_Base = lastElem, strings_ToLower = map asciiLower\<rparr>"

text \<open>
  The scenario of the specification: a file \<^verbatim>\<open>a.txt\<close> of 500 bytes beside a directory
  \<^verbatim>\<open>sub\<close> that holds a file \<^verbatim>\<open>b.txt\<close> of 1500 bytes.
\<close>

definition demo_fs :: fsnode where
  "demo_fs =
     Directory [(''a.txt'', RegularFile 500), (''sub'', Directory [(''b.txt'', RegularFile 1500)])]"


text \<open>
  A second one: a directory that lists an entry \<^verbatim>\<open>x\<close> on which \<^verbatim>\<open>os.Stat\<close> fails, a
  directory \<^verbatim>\<open>d\<close> that cannot be listed, and a file \<^verbatim>\<open>f\<close> of 7 bytes.
\<close>

definition faulty_fs :: fsnode where
  "faulty_fs =
     Directory [(''x'', StatFails ''gone''), (''d'', UnreadableDir ''denied''),
                (''f'', RegularFile 7)]"

subsection \<open>The scan root during its loop\<close>

text \<open>
  The state in which the call of \<open>calculateDirSizeWithProgress\<close> on a scan root that is a
  directory leaves its loop, before \<^verbatim>\<open>dirInfo.Size = totalSize\<close> and \<^verbatim>\<open>sort.Slice\<close>: the state
  in which the last progress message of the loop was sent.
\<close>

definition root_loop :: "lib \<Rightarrow> string \<Rightarrow> (string \<times> fsnode) list \<Rightarrow> machine" where
  "root_loop L path entries =
     (case new_DirInfo path None True empty_machine of
        (dirInfo, s1) \<Rightarrow>
          snd (scanEntries L path dirInfo entries 0 (s1\<lparr>dirsCount := dirsCount s1 + 1\<rparr>)))"

text \<open>Six files in one directory, listed from the smallest to the largest.\<close>

definition six_files :: "(string \<times> fsnode) list" where
  "six_files =
     [(''a'', RegularFile 1), (''b'', RegularFile 2), (''c'', RegularFile 3),
      (''d'', RegularFile 4), (''e'', RegularFile 5), (''f'', RegularFile 6)]"

subsection \<open>A current node that its parent does not list\<close>

text \<open>
  A state that no session reaches: the directory at address 2 is the current node and
  points to the root as its parent, and the root lists the file at address 1 only.
\<close>

definition stale_machine :: machine where
  "stale_machine =
     \<lparr>heap =
        [\<lparr>Path = ''.'', Size = 10, Children = [1], Parent = None, IsDir = True, Error = None\<rparr>,
         \<lparr>Path = ''./a'', Size = 10, Children = [], Parent = Some 0, IsDir = False, Error = None\<rparr>,
         \<lparr>Path = ''./gone'', Size = 3, Children = [3, 4], Parent = Some 0, IsDir = True,
            Error = None\<rparr>,
         \<lparr>Path = ''./gone/x'', Size = 1, Children = [], Parent = Some 2, IsDir = False,
            Error = None\<rparr>,
         \<lparr>Path = ''./gone/y'', Size = 2, Children = [], Parent = Some 2, IsDir = False,
            Error = None\<rparr>],
      currentRoot = Some 0, progressChan = [], filesCount = 3, dirsCount = 2\<rparr>"

definition stale_model :: model where
  "stale_model = initialModel\<lparr>scanning := False, rootDir := Some 0, currentDir := Some 2, cursor := 1\<rparr>"

subsection \<open>Failures during the scan\<close>

text \<open>
  The directories of a file system whose \<^verbatim>\<open>os.ReadDir\<close> fails, each with the path at which
  the scanner reaches it and the error, and the entries whose \<^verbatim>\<open>os.Stat\<close> succeeds.
  \<open>error_node h c p err\<close>: the node \<open>c\<close> is a directory of path \<open>p\<close> that carries the error
  \<open>err\<close>, has no children and has size 0.
\<close>

fun unreadable :: "lib \<Rightarrow> string \<Rightarrow> fsnode \<Rightarrow> (string \<times> string) list" where
  "unreadable L path (StatFails err) = []"
| "unreadable L path (RegularFile sz) = []"
| "unreadable L path (UnreadableDir err) = [(path, err)]"
| "unreadable L path (Directory entries) =
     concat (map (\<lambda>(name, node). unreadable L (filepath_Join L path name) node) entries)"

definition error_node :: "heap \<Rightarrow> addr \<Rightarrow> string \<Rightarrow> string \<Rightarrow> bool" where
  "error_node h c p err \<longleftrightarrow>
     Path (h ! c) = p \<and> Error (h ! c) = Some err \<and> IsDir (h ! c) \<and>
     Size (h ! c) = 0 \<and> Children (h ! c) = []"

fun stat_ok :: "fsnode \<Rightarrow> bool" where
  "stat_ok (StatFails err) = False"
| "stat_ok node = True"


subsection \<open>The tree of a file system\<close>

text \<open>
  \<open>mirrors L h c path parent node\<close>: the node at address \<open>c\<close> of the heap \<open>h\<close> and the nodes
  below it are the tree of the file system \<open>node\<close> found at \<open>path\<close>. A file is a node with
  its size, a directory that cannot be listed a node with the error, and a directory a node
  whose size is the sum of its children and whose children, taken in the order of their
  allocation, are the trees of its entries in the order of the listing, the entries
  whose \<^verbatim>\<open>os.Stat\<close> fails left out.
\<close>

fun mirrors :: "lib \<Rightarrow> heap \<Rightarrow> addr \<Rightarrow> string \<Rightarrow> addr option \<Rightarrow> fsnode \<Rightarrow> bool"
  and mirrors_entries ::
    "lib \<Rightarrow> heap \<Rightarrow> addr list \<Rightarrow> string \<Rightarrow> addr \<Rightarrow> (string \<times> fsnode) list \<Rightarrow> bool"
where
  "mirrors L h c path parent (StatFails err) = False"
| "mirrors L h c path parent (RegularFile sz) =
     (c < length h \<and>
      h ! c = \<lparr>Path = path, Size = sz, Children = [], Parent = parent, IsDir = False,
                Error = None\<rparr>)"
| "mirrors L h c path parent (UnreadableDir err) =
     (c < length h \<and>
      h ! c = \<lparr>Path = path, Size = 0, Children = [], Parent = parent, IsDir = True,
                Error = Some err\<rparr>)"
| "mirrors L h c path parent (Directory entries) =
     (c < length h \<and> Path (h ! c) = path \<and> Parent (h ! c) = parent \<and> IsDir (h ! c) \<and>
      Error (h ! c) = None \<and> Size (h ! c) = child_sum h c \<and>
      mirrors_entries L h (sort (Children (h ! c))) path c entries)"
| "mirrors_entries L h cs path d [] = (cs = [])"
| "mirrors_entries L h cs path d ((name, node) # entries) =
     (if stat_ok node
      then (case cs of
              [] \<Rightarrow> False
            | c # rest \<Rightarrow>
                mirrors L h c (filepath_Join L path name) (Some d) node \<and>
                mirrors_entries L h rest path d entries)
      else mirrors_entries L h cs path d entries)"


section \<open>Properties\<close>

subsection \<open>formatSize\<close>

















subsection \<open>The scanner\<close>

lemma calc_Inl_iff:
  "fst (calculateDirSizeWithProgress L path parent fs s) = Inl err \<longleftrightarrow> fs = StatFails err"
  by (cases fs) (auto simp: Let_def split: prod.splits)

lemma new_DirInfo_heap:
  assumes "new_DirInfo path parent isDir s = (d, s1)"
  shows "d = length (heap s)"
    and "heap s1 = heap s @ [\<lparr>Path = path, Size = 0, Children = [], Parent = parent,
                               IsDir = isDir, Error = None\<rparr>]"
  using assms by (auto simp: new_DirInfo_def Let_def split: if_splits)

lemma child_sum_mset:
  "child_sum h a = sum_mset (image_mset (\<lambda>c. Size (h ! c)) (mset (Children (h ! a))))"
  by (simp add: child_sum_def sum_mset_sum_list[symmetric] del: sum_mset_sum_list)

lemma child_sum_cong:
  assumes "mset (Children (h' ! a)) = mset (Children (h ! a))"
    and "\<And>c. c \<in> set (Children (h ! a)) \<Longrightarrow> Size (h' ! c) = Size (h ! c)"
  shows "child_sum h' a = child_sum h a"
proof -
  have "image_mset (\<lambda>c. Size (h' ! c)) (mset (Children (h ! a))) =
        image_mset (\<lambda>c. Size (h ! c)) (mset (Children (h ! a)))"
    by (rule image_mset_cong) (simp add: assms(2))
  then show ?thesis by (simp add: child_sum_mset assms(1))
qed

lemma node_ok_cong:
  assumes ok: "node_ok h a"
    and len: "length h \<le> length h'"
    and ch: "mset (Children (h' ! a)) = mset (Children (h ! a))"
    and par: "Parent (h' ! a) = Parent (h ! a)" and dir: "IsDir (h' ! a) = IsDir (h ! a)"
    and kids: "\<And>c. c \<in> set (Children (h ! a)) \<Longrightarrow> Parent (h' ! c) = Parent (h ! c)"
  shows "node_ok h' a"
proof -
  have set_eq: "set (Children (h' ! a)) = set (Children (h ! a))"
    using ch by (rule mset_eq_setD)
  have dist: "distinct (Children (h' ! a)) = distinct (Children (h ! a))"
    using ch by (rule mset_eq_imp_distinct_iff)
  have empty: "Children (h' ! a) = [] \<longleftrightarrow> Children (h ! a) = []"
    using set_eq by (metis set_empty)
  show ?thesis
    using ok len kids unfolding node_ok_def set_eq dist par dir empty by fastforce
qed

lemma size_ok_cong:
  assumes ok: "size_ok h a"
    and ch: "mset (Children (h' ! a)) = mset (Children (h ! a))"
    and sz: "Size (h' ! a) = Size (h ! a)" and dir: "IsDir (h' ! a) = IsDir (h ! a)"
    and kids: "\<And>c. c \<in> set (Children (h ! a)) \<Longrightarrow> Size (h' ! c) = Size (h ! c)"
  shows "size_ok h' a"
  using ok child_sum_cong[OF ch kids] unfolding size_ok_def sz dir by simp

text \<open>Complete nodes stay complete while the scan goes on below an older node.\<close>

lemma new_ok_extend:
  assumes old: "new_ok n h" and len: "length h \<le> length h'"
    and same: "\<And>b. n \<le> b \<Longrightarrow> b < length h \<Longrightarrow> h' ! b = h ! b"
    and rest: "new_ok (length h) h'"
  shows "new_ok n h'"
  unfolding new_ok_def
proof (intro allI impI)
  fix a assume a: "n \<le> a" "a < length h'"
  show "node_ok h' a \<and> size_ok h' a"
  proof (cases "a < length h")
    case False
    then show ?thesis using rest a by (simp add: new_ok_def)
  next
    case True
    have ok: "node_ok h a" "size_ok h a" using old a True by (auto simp: new_ok_def)
    have here: "h' ! a = h ! a" using same a True by simp
    have kids: "h' ! c = h ! c" if "c \<in> set (Children (h ! a))" for c
    proof -
      have "a < c" "c < length h" using ok(1) that by (auto simp: node_ok_def)
      then show ?thesis using same a by simp
    qed
    have "node_ok h' a"
      by (rule node_ok_cong[OF ok(1) len]) (simp_all add: here kids)
    moreover have "size_ok h' a"
      by (rule size_ok_cong[OF ok(2)]) (simp_all add: here kids)
    ultimately show ?thesis ..
  qed
qed

lemma new_ok_update_below:
  assumes old: "new_ok n h" and d: "d < n"
  shows "new_ok n (h[d := v])"
proof -
  have "new_ok n (h[d := v])"
  proof (rule new_ok_extend[OF old])
    show "length h \<le> length (h[d := v])" by simp
    show "h[d := v] ! b = h ! b" if "n \<le> b" "b < length h" for b
      using that d by simp
    show "new_ok (length h) (h[d := v])" by (simp add: new_ok_def)
  qed
  then show ?thesis .
qed

lemma fresh_leaf:
  assumes "\<forall>p. Parent v = Some p \<longrightarrow> p < length h" "Children v = []"
    "IsDir v \<longrightarrow> Size v = 0"
  shows "new_ok (length h) (h @ [v])"
  using assms by (auto simp: new_ok_def node_ok_def size_ok_def child_sum_def less_Suc_eq)

lemma calc_post_file:
  assumes "\<forall>p. parent = Some p \<longrightarrow> p < length (heap s)"
  shows "calc_post parent s (calculateDirSizeWithProgress L path parent (RegularFile sz) s)"
proof -
  obtain d s1 where n: "new_DirInfo path parent False s = (d, s1)"
    by (cases "new_DirInfo path parent False s")
  note h = new_DirInfo_heap[OF n]
  have "new_ok (length (heap s))
     (heap s @ [\<lparr>Path = path, Size = sz, Children = [], Parent = parent, IsDir = False, Error = None\<rparr>])"
    by (rule fresh_leaf) (use assms in auto)
  then show ?thesis
    using n h by (simp add: calc_post_def nth_append)
qed

lemma calc_post_unreadable:
  assumes "\<forall>p. parent = Some p \<longrightarrow> p < length (heap s)"
  shows "calc_post parent s (calculateDirSizeWithProgress L path parent (UnreadableDir err) s)"
proof -
  obtain d s1 where n: "new_DirInfo path parent True s = (d, s1)"
    by (cases "new_DirInfo path parent True s")
  note h = new_DirInfo_heap[OF n]
  have "new_ok (length (heap s))
     (heap s @ [\<lparr>Path = path, Size = 0, Children = [], Parent = parent, IsDir = True, Error = Some err\<rparr>])"
    by (rule fresh_leaf) (use assms in auto)
  then show ?thesis
    using n h by (simp add: calc_post_def nth_append)
qed

lemma attach_child_post:
  assumes run: "attach_child d c tot s = (tot1, s1)"
    and d: "d < c" "c < length (heap s)"
    and ok: "node_ok (heap s) d" "IsDir (heap s ! d)"
    and c: "Parent (heap s ! c) = Some d" "c \<notin> set (Children (heap s ! d))"
    and tot: "tot = child_sum (heap s) d"
  shows "length (heap s1) = length (heap s)"
    and "\<And>b. b \<noteq> d \<Longrightarrow> heap s1 ! b = heap s ! b"
    and "node_ok (heap s1) d" and "IsDir (heap s1 ! d)"
    and "Parent (heap s1 ! d) = Parent (heap s ! d)"
    and "Children (heap s1 ! d) = Children (heap s ! d) @ [c]"
    and "tot1 = child_sum (heap s1) d"
proof -
  have dlen: "d < length (heap s)" using d by simp
  have dc: "d \<noteq> c" using d by simp
  show len: "length (heap s1) = length (heap s)"
    using run by (auto simp: attach_child_def Let_def split: if_splits)
  show frame: "heap s1 ! b = heap s ! b" if "b \<noteq> d" for b
    using run that by (auto simp: attach_child_def Let_def split: if_splits)
  show kids: "Children (heap s1 ! d) = Children (heap s ! d) @ [c]"
    using run dlen by (auto simp: attach_child_def Let_def split: if_splits)
  show dir: "IsDir (heap s1 ! d)"
    using run dlen ok(2) by (auto simp: attach_child_def Let_def split: if_splits)
  show par: "Parent (heap s1 ! d) = Parent (heap s ! d)"
    using run dlen by (auto simp: attach_child_def Let_def split: if_splits)
  have others: "heap s1 ! x = heap s ! x" if "x \<in> set (Children (heap s ! d) @ [c])" for x
  proof -
    have "d < x" using that ok(1) d by (auto simp: node_ok_def)
    then show ?thesis using frame by simp
  qed
  show "node_ok (heap s1) d"
    using ok(1) d c dir unfolding node_ok_def kids par len
    by (auto simp: others)
  have "child_sum (heap s1) d = child_sum (heap s) d + Size (heap s ! c)"
    unfolding child_sum_def kids using others by (simp cong: map_cong)
  moreover have "tot1 = tot + Size (heap s ! c)"
    using run dlen dc by (auto simp: attach_child_def Let_def split: if_splits)
  ultimately show "tot1 = child_sum (heap s1) d" using tot by simp
qed

lemma sort_contract_mset: "sort_contract srt \<Longrightarrow> mset (srt lt xs) = mset xs"
  by (simp add: sort_contract_def)

lemma calc_post_dir:
  assumes sc: "sort_contract (sort_Slice L)"
    and par: "\<forall>p. parent = Some p \<longrightarrow> p < length (heap s)"
    and IH: "\<And>d s1. (d, s1) = new_DirInfo path parent True s \<Longrightarrow>
               loop_post d (s1\<lparr>dirsCount := dirsCount s1 + 1\<rparr>)
                 (scanEntries L path d entries 0 (s1\<lparr>dirsCount := dirsCount s1 + 1\<rparr>))"
  shows "calc_post parent s (calculateDirSizeWithProgress L path parent (Directory entries) s)"
proof -
  obtain d s1 where n: "new_DirInfo path parent True s = (d, s1)"
    by (cases "new_DirInfo path parent True s")
  note alloc = new_DirInfo_heap[OF n]
  define s1' where "s1' = s1\<lparr>dirsCount := dirsCount s1 + 1\<rparr>"
  obtain tot s2 where loop: "scanEntries L path d entries 0 s1' = (tot, s2)"
    by (cases "scanEntries L path d entries 0 s1'")
  have h1: "heap s1' = heap s @ [\<lparr>Path = path, Size = 0, Children = [], Parent = parent,
                               IsDir = True, Error = None\<rparr>]"
    by (simp add: s1'_def alloc)
  have len1: "length (heap s1') = Suc d" by (simp add: h1 alloc)
  have post: "loop_post d s1' (tot, s2)"
    using IH[OF n[symmetric]] loop by (simp add: s1'_def)
  then have len2: "length (heap s1') \<le> length (heap s2)"
    and frame2: "\<And>b. b < length (heap s1') \<Longrightarrow> b \<noteq> d \<Longrightarrow> heap s2 ! b = heap s1' ! b"
    and ok2: "node_ok (heap s2) d" and dir2: "IsDir (heap s2 ! d)"
    and par2: "Parent (heap s2 ! d) = Parent (heap s1' ! d)"
    and tot2: "tot = child_sum (heap s2) d"
    and new2: "new_ok (length (heap s1')) (heap s2)"
    by (auto simp: loop_post_def)
  define hA where "hA = (heap s2)[d := (heap s2 ! d)\<lparr>Size := tot\<rparr>]"
  define hB where "hB = hA[d := (hA ! d)\<lparr>Children := sort_Slice L (bySizeDesc hA) (Children (hA ! d))\<rparr>]"
  have res: "calculateDirSizeWithProgress L path parent (Directory entries) s = (Inr d, s2\<lparr>heap := hB\<rparr>)"
    using n loop by (simp add: s1'_def hA_def hB_def Let_def)
  have dlen: "d < length (heap s2)" using len1 len2 by simp
  have lenB: "length hB = length (heap s2)" by (simp add: hB_def hA_def)
  have other: "hB ! b = heap s2 ! b" if "b \<noteq> d" for b
    using that by (simp add: hB_def hA_def)
  have kidsB: "mset (Children (hB ! d)) = mset (Children (heap s2 ! d))"
    using dlen by (simp add: hB_def hA_def sort_contract_mset[OF sc])
  have fieldsB: "Parent (hB ! d) = Parent (heap s2 ! d)" "IsDir (hB ! d) = IsDir (heap s2 ! d)"
      "Size (hB ! d) = tot"
    using dlen by (simp_all add: hB_def hA_def)
  have below: "hB ! c = heap s2 ! c" if "c \<in> set (Children (heap s2 ! d))" for c
  proof -
    have "d < c" using ok2 that by (auto simp: node_ok_def)
    then show ?thesis using other by simp
  qed
  have nodeB: "node_ok hB d"
    by (rule node_ok_cong[OF ok2]) (simp_all add: lenB kidsB fieldsB below)
  have "child_sum hB d = child_sum (heap s2) d"
    by (rule child_sum_cong[OF kidsB]) (simp add: below)
  then have sizeB: "size_ok hB d"
    using tot2 fieldsB by (simp add: size_ok_def)
  have aboveB: "new_ok (Suc d) hB"
    unfolding hB_def hA_def using new2 len1
    by (intro new_ok_update_below) simp_all
  have newB: "new_ok d hB"
    unfolding new_ok_def
  proof (intro allI impI)
    fix a assume "d \<le> a" "a < length hB"
    then show "node_ok hB a \<and> size_ok hB a"
      using nodeB sizeB aboveB by (cases "a = d") (auto simp: new_ok_def)
  qed
  have frameB: "hB ! b = heap s ! b" if "b < d" for b
  proof -
    have "hB ! b = heap s2 ! b" using that other by simp
    also have "\<dots> = heap s1' ! b" using that frame2 len1 by simp
    also have "\<dots> = heap s ! b" using that by (simp add: h1 alloc nth_append)
    finally show ?thesis .
  qed
  have parB: "Parent (hB ! d) = parent"
    using fieldsB(1) par2 by (simp add: h1 alloc)
  show ?thesis
    unfolding res calc_post_def using alloc(1) dlen frameB parB newB lenB by simp
qed

lemma loop_post_nil:
  assumes "node_ok (heap s) d" "IsDir (heap s ! d)" "tot = child_sum (heap s) d"
  shows "loop_post d s (scanEntries L path d [] tot s)"
  using assms by (simp add: loop_post_def new_ok_def)

lemma loop_post_skip:
  assumes "calculateDirSizeWithProgress L (filepath_Join L path name) (Some d) node s = (Inl err, s1)"
    and "calc_post (Some d) s (Inl err, s1)"
    and "loop_post d s1 (scanEntries L path d entries tot s1)"
  shows "loop_post d s (scanEntries L path d ((name, node) # entries) tot s)"
  using assms by (simp add: calc_post_def)

lemma loop_post_attach:
  assumes pre: "d < length (heap s)" "node_ok (heap s) d" "IsDir (heap s ! d)"
      "tot = child_sum (heap s) d"
    and call: "calculateDirSizeWithProgress L (filepath_Join L path name) (Some d) node s = (Inr c, s1)"
    and cp: "calc_post (Some d) s (Inr c, s1)"
    and att: "attach_child d c tot s1 = (tot1, s2)"
    and IH: "\<lbrakk>d < length (heap s2); node_ok (heap s2) d; IsDir (heap s2 ! d);
              tot1 = child_sum (heap s2) d\<rbrakk>
             \<Longrightarrow> loop_post d s2 (scanEntries L path d entries tot1 s2)"
  shows "loop_post d s (scanEntries L path d ((name, node) # entries) tot s)"
proof -
  from cp have c: "c = length (heap s)" and clen: "c < length (heap s1)"
    and frame1: "\<And>b. b < c \<Longrightarrow> heap s1 ! b = heap s ! b"
    and parc: "Parent (heap s1 ! c) = Some d" and new1: "new_ok c (heap s1)"
    by (auto simp: calc_post_def)
  have dc: "d < c" using pre(1) c by simp
  have d1: "heap s1 ! d = heap s ! d" using frame1 dc by simp
  have kids_old: "heap s1 ! x = heap s ! x \<and> x < c" if "x \<in> set (Children (heap s ! d))" for x
    using that pre(2) frame1 c by (auto simp: node_ok_def)
  have ok1: "node_ok (heap s1) d"
    by (rule node_ok_cong[OF pre(2)]) (use clen c kids_old in \<open>auto simp: d1\<close>)
  have fresh: "c \<notin> set (Children (heap s1 ! d))"
    using kids_old by (auto simp: d1)
  have sum1: "tot = child_sum (heap s1) d"
    unfolding pre(4)
    by (rule child_sum_cong[symmetric]) (use kids_old in \<open>auto simp: d1\<close>)
  note a = attach_child_post[OF att dc clen ok1 _ parc fresh sum1]
  have dir1: "IsDir (heap s1 ! d)" using pre(3) d1 by simp
  note a = a[OF dir1]
  have len2: "length (heap s2) = length (heap s1)" by (rule a(1))
  obtain tot' s' where rest: "scanEntries L path d entries tot1 s2 = (tot', s')"
    by (cases "scanEntries L path d entries tot1 s2")
  have "loop_post d s2 (tot', s')"
    using IH[OF _ a(3) a(4) a(7)] dc clen len2 rest by simp
  then have len': "length (heap s2) \<le> length (heap s')"
    and frame': "\<And>b. b < length (heap s2) \<Longrightarrow> b \<noteq> d \<Longrightarrow> heap s' ! b = heap s2 ! b"
    and ok': "node_ok (heap s') d" and dir': "IsDir (heap s' ! d)"
    and par': "Parent (heap s' ! d) = Parent (heap s2 ! d)"
    and sub': "set (Children (heap s2 ! d)) \<subseteq> set (Children (heap s' ! d))"
    and tot': "tot' = child_sum (heap s') d"
    and new': "new_ok (length (heap s2)) (heap s')"
    by (auto simp: loop_post_def)
  have new2: "new_ok c (heap s2)"
  proof (rule new_ok_extend[OF new1])
    show "length (heap s1) \<le> length (heap s2)" using len2 by simp
    show "heap s2 ! b = heap s1 ! b" if "c \<le> b" "b < length (heap s1)" for b
      using that dc a(2)[of b] by simp
    show "new_ok (length (heap s1)) (heap s2)" using len2 by (simp add: new_ok_def)
  qed
  have newF: "new_ok c (heap s')"
  proof (rule new_ok_extend[OF new2 len'])
    show "heap s' ! b = heap s2 ! b" if "c \<le> b" "b < length (heap s2)" for b
      using that dc frame'[of b] by simp
    show "new_ok (length (heap s2)) (heap s')" by (rule new')
  qed
  have frameF: "heap s' ! b = heap s ! b" if "b < length (heap s)" "b \<noteq> d" for b
  proof -
    have "heap s' ! b = heap s2 ! b" using that frame' len2 clen c by simp
    also have "\<dots> = heap s1 ! b" using that a(2) by simp
    also have "\<dots> = heap s ! b" using that frame1 c by simp
    finally show ?thesis .
  qed
  have "scanEntries L path d ((name, node) # entries) tot s = (tot', s')"
    using call att rest by simp
  moreover have "length (heap s) \<le> length (heap s')" using len' len2 clen c by simp
  moreover have "Parent (heap s' ! d) = Parent (heap s ! d)" using par' a(5) d1 by simp
  moreover have "set (Children (heap s ! d)) \<subseteq> set (Children (heap s' ! d))"
    using sub' a(6) d1 by auto
  ultimately show ?thesis
    using frameF ok' dir' tot' newF c by (simp add: loop_post_def)
qed

lemma scan_post:
  assumes sc: "sort_contract (sort_Slice L)"
  shows "(\<forall>p. parent = Some p \<longrightarrow> p < length (heap s)) \<Longrightarrow>
           calc_post parent s (calculateDirSizeWithProgress L path parent fs s)"
    and "d < length (heap s) \<Longrightarrow> node_ok (heap s) d \<Longrightarrow> IsDir (heap s ! d) \<Longrightarrow>
         tot = child_sum (heap s) d \<Longrightarrow>
           loop_post d s (scanEntries L path d es tot s)"
  using sc
proof (induction L path parent fs s and L path d es tot s
    rule: calculateDirSizeWithProgress_scanEntries.induct)
  case (1 L path parent err s)
  then show ?case by (simp add: calc_post_def)
next
  case (2 L path parent sz s)
  then show ?case by (intro calc_post_file) simp
next
  case (3 L path parent err s)
  then show ?case by (intro calc_post_unreadable) simp
next
  case (4 L path parent entries s)
  show ?case
  proof (rule calc_post_dir[OF "4.prems"(2) "4.prems"(1)])
    fix d s1 assume n: "(d, s1) = new_DirInfo path parent True s"
    note alloc = new_DirInfo_heap[OF n[symmetric]]
    let ?s = "s1\<lparr>dirsCount := dirsCount s1 + 1\<rparr>"
    have "d < length (heap ?s)" by (simp add: alloc)
    moreover have "node_ok (heap ?s) d"
      using "4.prems"(1) by (auto simp: alloc node_ok_def)
    moreover have "IsDir (heap ?s ! d)" by (simp add: alloc)
    moreover have "0 = child_sum (heap ?s) d" by (simp add: alloc child_sum_def)
    ultimately show "loop_post d ?s (scanEntries L path d entries 0 ?s)"
      using "4.IH"[OF n] "4.prems"(2) by blast
  qed
next
  case (5 L path dirInfo totalSize s)
  then show ?case by (intro loop_post_nil) simp_all
next
  case (6 L path dirInfo name node entries totalSize s)
  obtain r s1 where call:
      "calculateDirSizeWithProgress L (filepath_Join L path name) (Some dirInfo) node s = (r, s1)"
    by (cases "calculateDirSizeWithProgress L (filepath_Join L path name) (Some dirInfo) node s")
  have cp: "calc_post (Some dirInfo) s (r, s1)"
    using "6.IH"(1) "6.prems"(1,5) call by simp
  show ?case
  proof (cases r)
    case (Inl err)
    have same: "s1 = s" using cp Inl by (simp add: calc_post_def)
    have "loop_post dirInfo s1 (scanEntries L path dirInfo entries totalSize s1)"
      using "6.IH"(2)[OF call[symmetric] Inl] "6.prems" same by simp
    then show ?thesis
      using call cp Inl by (intro loop_post_skip) simp_all
  next
    case (Inr c)
    obtain tot1 s2 where att: "attach_child dirInfo c totalSize s1 = (tot1, s2)"
      by (cases "attach_child dirInfo c totalSize s1")
    show ?thesis
    proof (rule loop_post_attach[OF "6.prems"(1-4) call[unfolded Inr] cp[unfolded Inr] att])
      assume "dirInfo < length (heap s2)" "node_ok (heap s2) dirInfo" "IsDir (heap s2 ! dirInfo)"
        "tot1 = child_sum (heap s2) dirInfo"
      then show "loop_post dirInfo s2 (scanEntries L path dirInfo entries tot1 s2)"
        using "6.IH"(3)[OF call[symmetric] Inr att[symmetric]] "6.prems"(5) by simp
    qed
  qed
qed

subsection \<open>Reachability in a well-shaped heap\<close>

lemma in_tree_bound:
  assumes "struct_ok h" "r < length h" "in_tree h r d"
  shows "r \<le> d \<and> d < length h"
  using assms(3)
proof (induction rule: in_tree.induct)
  case in_tree_root
  then show ?case using assms(2) by simp
next
  case (in_tree_child a c)
  then have "node_ok h a" using assms(1) by (simp add: struct_ok_def)
  then show ?case using in_tree_child by (auto simp: node_ok_def)
qed

lemma in_tree_parent:
  assumes "struct_ok h" "r < length h" "in_tree h r d" "d \<noteq> r"
  shows "\<exists>p. Parent (h ! d) = Some p \<and> d \<in> set (Children (h ! p)) \<and> in_tree h r p"
  using assms(3,4)
proof (cases rule: in_tree.cases)
  case in_tree_root
  then show ?thesis using assms(4) by simp
next
  case (in_tree_child a)
  have "a < length h" using in_tree_bound[OF assms(1,2) in_tree_child(1)] by simp
  then have "node_ok h a" using assms(1) by (simp add: struct_ok_def)
  then have "Parent (h ! d) = Some a" using in_tree_child(2) by (auto simp: node_ok_def)
  then show ?thesis using in_tree_child by blast
qed

lemma in_tree_transfer:
  assumes "in_tree h r d"
    and "\<And>a. in_tree h r a \<Longrightarrow> set (Children (h ! a)) \<subseteq> set (Children (h' ! a))"
  shows "in_tree h' r d"
  using assms
proof (induction rule: in_tree.induct)
  case in_tree_root
  show ?case by (rule in_tree.in_tree_root)
next
  case (in_tree_child a c)
  have "in_tree h' r a" using in_tree_child by blast
  moreover have "c \<in> set (Children (h' ! a))" using in_tree_child by blast
  ultimately show ?case by (rule in_tree.in_tree_child)
qed

lemma in_tree_trans:
  assumes "in_tree h a d" "in_tree h r a"
  shows "in_tree h r d"
  using assms by (induction rule: in_tree.induct) (auto intro: in_tree.intros)

lemma in_tree_below:
  assumes "in_tree h a b"
  shows "b = a \<or> (\<exists>c \<in> set (Children (h ! a)). in_tree h c b)"
  using assms
proof (induction rule: in_tree.induct)
  case in_tree_root
  show ?case by simp
next
  case (in_tree_child x c)
  then show ?case by (auto intro: in_tree.intros)
qed

lemma in_tree_up:
  assumes "struct_ok h" "b < length h" "in_tree h b a" "Parent (h ! a) = None"
  shows "b = a"
proof (rule ccontr)
  assume "b \<noteq> a"
  then obtain p where "Parent (h ! a) = Some p"
    using in_tree_parent[OF assms(1,2,3)] by auto
  then show False using assms(4) by simp
qed

lemma in_tree_via_parent:
  assumes ok: "struct_ok h" and b: "b < length h" and par: "Parent (h ! a) = Some p"
    and a: "a \<in> set (Children (h ! p))"
  shows "in_tree h b a \<longleftrightarrow> b = a \<or> in_tree h b p"
proof
  assume t: "in_tree h b a"
  show "b = a \<or> in_tree h b p"
  proof (cases "b = a")
    case False
    then obtain q where "Parent (h ! a) = Some q" "in_tree h b q"
      using in_tree_parent[OF ok b t] by auto
    then show ?thesis using par by simp
  qed simp
next
  assume "b = a \<or> in_tree h b p"
  then show "in_tree h b a" using a by (auto intro: in_tree.intros)
qed

subsection \<open>Heaps of the same shape\<close>

lemma same_shape_refl: "same_shape h h"
  by (simp add: same_shape_def)

lemma same_shape_trans: "same_shape h h1 \<Longrightarrow> same_shape h1 h2 \<Longrightarrow> same_shape h h2"
  by (simp add: same_shape_def)

lemma same_shape_set:
  "same_shape h h' \<Longrightarrow> a < length h \<Longrightarrow> set (Children (h' ! a)) = set (Children (h ! a))"
  by (auto simp: same_shape_def dest: mset_eq_setD)

lemma same_shape_sym: "same_shape h h' \<Longrightarrow> same_shape h' h"
  by (simp add: same_shape_def)

lemma same_shape_struct:
  assumes "same_shape h h'" "struct_ok h"
  shows "struct_ok h'"
  unfolding struct_ok_def
proof (intro allI impI)
  fix a assume "a < length h'"
  then have a: "a < length h" using assms(1) by (simp add: same_shape_def)
  then have ok: "node_ok h a" using assms(2) by (simp add: struct_ok_def)
  show "node_ok h' a"
  proof (rule node_ok_cong[OF ok])
    show "Parent (h' ! c) = Parent (h ! c)" if "c \<in> set (Children (h ! a))" for c
      using that ok assms(1) by (auto simp: node_ok_def same_shape_def)
  qed (use assms(1) a in \<open>auto simp: same_shape_def\<close>)
qed

lemma same_shape_sizes:
  assumes "same_shape h h'" "struct_ok h" "sizes_ok h"
  shows "sizes_ok h'"
  unfolding sizes_ok_def
proof (intro allI impI)
  fix a assume "a < length h'"
  then have a: "a < length h" using assms(1) by (simp add: same_shape_def)
  then have ok: "node_ok h a" "size_ok h a"
    using assms(2,3) by (simp_all add: struct_ok_def sizes_ok_def)
  show "size_ok h' a"
  proof (rule size_ok_cong[OF ok(2)])
    show "Size (h' ! c) = Size (h ! c)" if "c \<in> set (Children (h ! a))" for c
      using that ok(1) assms(1) by (auto simp: node_ok_def same_shape_def)
  qed (use assms(1) a in \<open>auto simp: same_shape_def\<close>)
qed

lemma same_shape_in_tree:
  assumes "same_shape h h'" "struct_ok h" "r < length h" "in_tree h r d"
  shows "in_tree h' r d"
proof (rule in_tree_transfer[OF assms(4)])
  fix a assume "in_tree h r a"
  then have "a < length h" using in_tree_bound[OF assms(2,3)] by simp
  then show "set (Children (h ! a)) \<subseteq> set (Children (h' ! a))"
    using same_shape_set[OF assms(1)] by simp
qed

lemma same_shape_in_tree_iff:
  assumes "same_shape h h'" "struct_ok h" "r < length h"
  shows "in_tree h' r d \<longleftrightarrow> in_tree h r d"
proof
  assume "in_tree h r d"
  then show "in_tree h' r d" by (rule same_shape_in_tree[OF assms])
next
  assume t: "in_tree h' r d"
  have "same_shape h' h" "struct_ok h'" "r < length h'"
    using assms same_shape_sym same_shape_struct by (auto simp: same_shape_def)
  then show "in_tree h r d" using t by (rule same_shape_in_tree)
qed

lemma same_shape_lessFn:
  assumes "same_shape h h'" "x < length h" "y < length h"
  shows "lessFn L sb h' x y = lessFn L sb h x y"
  using assms by (simp add: lessFn_def byName_def bySizeDesc_def same_shape_def)

lemma children_sorted_cong:
  assumes sh: "same_shape h h'" and ok: "struct_ok h" and a: "a < length h"
    and same: "Children (h' ! a) = Children (h ! a)"
  shows "children_sorted L sb h' a = children_sorted L sb h a"
proof -
  have valid: "x < length h" if "x \<in> set (Children (h ! a))" for x
    using ok a that unfolding struct_ok_def node_ok_def by blast
  have eq: "lessFn L sb h' y x = lessFn L sb h y x"
    if "x \<in> set (Children (h ! a))" "y \<in> set (Children (h ! a))" for x y
    by (rule same_shape_lessFn[OF sh valid[OF that(2)] valid[OF that(1)]])
  have "sorted_wrt (\<lambda>x y. \<not> lessFn L sb h' y x) (Children (h ! a)) \<longleftrightarrow>
        sorted_wrt (\<lambda>x y. \<not> lessFn L sb h y x) (Children (h ! a))"
  proof
    assume "sorted_wrt (\<lambda>x y. \<not> lessFn L sb h' y x) (Children (h ! a))"
    then show "sorted_wrt (\<lambda>x y. \<not> lessFn L sb h y x) (Children (h ! a))"
      by (rule sorted_wrt_mono_rel[rotated]) (simp add: eq)
  next
    assume "sorted_wrt (\<lambda>x y. \<not> lessFn L sb h y x) (Children (h ! a))"
    then show "sorted_wrt (\<lambda>x y. \<not> lessFn L sb h' y x) (Children (h ! a))"
      by (rule sorted_wrt_mono_rel[rotated]) (simp add: eq)
  qed
  then show ?thesis unfolding children_sorted_def same .
qed

subsection \<open>sortChildren\<close>

lemma strict_weak_order_lessFn: "strict_weak_order (lessFn L sb h)"
  unfolding strict_weak_order_def lessFn_def byName_def bySizeDesc_def
  by (auto simp: fun_eq_iff)

lemma sort_contract_sorted:
  "sort_contract srt \<Longrightarrow> strict_weak_order lt \<Longrightarrow> sorted_wrt (\<lambda>x y. \<not> lt y x) (srt lt xs)"
  by (simp add: sort_contract_def)

lemma forEach_rel:
  assumes step: "\<And>s x. x \<in> set xs \<Longrightarrow> I s \<Longrightarrow> \<exists>s'. body s x = Inr s' \<and> I s' \<and> T s s' \<and> G x s'"
    and refl: "\<And>s. T s s"
    and trans: "\<And>s1 s2 s3. T s1 s2 \<Longrightarrow> T s2 s3 \<Longrightarrow> T s1 s3"
    and keep: "\<And>x s s'. x \<in> set xs \<Longrightarrow> G x s \<Longrightarrow> I s \<Longrightarrow> T s s' \<Longrightarrow> G x s'"
    and start: "I s"
  shows "\<exists>s'. forEach body xs s = Inr s' \<and> I s' \<and> T s s' \<and> (\<forall>x \<in> set xs. G x s')"
  using step keep start
proof (induction xs arbitrary: s)
  case Nil
  then show ?case using refl by simp
next
  case (Cons x xs)
  obtain s1 where s1: "body s x = Inr s1" "I s1" "T s s1" "G x s1"
    using Cons.prems(1)[of x s] Cons.prems(3) by auto
  have "\<exists>s'. forEach body xs s1 = Inr s' \<and> I s' \<and> T s1 s' \<and> (\<forall>y \<in> set xs. G y s')"
  proof (rule Cons.IH)
    show "\<exists>s'. body s y = Inr s' \<and> I s' \<and> T s s' \<and> G y s'" if "y \<in> set xs" "I s" for s y
      using Cons.prems(1)[of y s] that by simp
    show "G y s'" if "y \<in> set xs" "G y s" "I s" "T s s'" for y s s'
      using Cons.prems(2)[of y s s'] that by simp
    show "I s1" by (rule s1(2))
  qed
  then obtain s' where s': "forEach body xs s1 = Inr s'" "I s'" "T s1 s'" "\<forall>y \<in> set xs. G y s'"
    by blast
  have "G x s'" using Cons.prems(2)[of x s1 s'] s1 s' by simp
  then show ?case using s1 s' trans by auto
qed

lemma sortChildren_ok:
  assumes sc: "sort_contract (sort_Slice L)"
  shows "struct_ok h \<Longrightarrow> a < length h \<Longrightarrow> length h \<le> stack + a \<Longrightarrow>
     \<exists>h'. sortChildren L stack sb h (Some a) = Inr h' \<and> same_shape h h' \<and>
          (\<forall>b. in_tree h a b \<longrightarrow> children_sorted L sb h' b) \<and>
          (\<forall>b < length h. children_sorted L sb h b \<longrightarrow> children_sorted L sb h' b)"
proof (induction stack arbitrary: h a)
  case 0
  then show ?case by simp
next
  case (Suc n)
  define cs where "cs = sort_Slice L (lessFn L sb h) (Children (h ! a))"
  define h1 where "h1 = h[a := (h ! a)\<lparr>Children := cs\<rparr>]"
  have perm: "mset cs = mset (Children (h ! a))"
    unfolding cs_def by (rule sort_contract_mset[OF sc])
  have kids1: "Children (h1 ! a) = cs" using Suc.prems(2) by (simp add: h1_def)
  have shape1: "same_shape h h1"
    using perm Suc.prems(2) by (auto simp: same_shape_def h1_def nth_list_update)
  have ok1: "struct_ok h1" using shape1 Suc.prems(1) by (rule same_shape_struct)
  have len1: "length h1 = length h" by (simp add: h1_def)
  have valid: "x < length h \<and> a < x" if "x \<in> set cs" for x
  proof -
    have "x \<in> set (Children (h ! a))" using that perm by (metis mset_eq_setD)
    then show ?thesis using Suc.prems(1,2) unfolding struct_ok_def node_ok_def by blast
  qed
  have sorted1: "children_sorted L sb h1 a"
  proof -
    have "sorted_wrt (\<lambda>x y. \<not> lessFn L sb h y x) cs"
      unfolding cs_def by (rule sort_contract_sorted[OF sc strict_weak_order_lessFn])
    then have "sorted_wrt (\<lambda>x y. \<not> lessFn L sb h1 y x) cs"
      by (rule sorted_wrt_mono_rel[rotated]) (simp add: same_shape_lessFn[OF shape1] valid)
    then show ?thesis by (simp add: children_sorted_def kids1)
  qed
  have keep1: "children_sorted L sb h1 b" if "b < length h" "children_sorted L sb h b" for b
  proof (cases "b = a")
    case True
    then show ?thesis using sorted1 by simp
  next
    case False
    then have "Children (h1 ! b) = Children (h ! b)" by (simp add: h1_def)
    then show ?thesis using children_sorted_cong[OF shape1 Suc.prems(1) that(1)] that(2) by simp
  qed
  define I where "I = (\<lambda>k. struct_ok k \<and> same_shape h1 k)"
  define T where "T = (\<lambda>k k'. same_shape k k' \<and>
      (\<forall>b < length k. children_sorted L sb k b \<longrightarrow> children_sorted L sb k' b))"
  define G where "G = (\<lambda>c k. \<forall>b. in_tree h1 c b \<longrightarrow> children_sorted L sb k b)"
  have loop: "\<exists>h'. forEach (\<lambda>h' child. sortChildren L n sb h' (Some child)) cs h1 = Inr h' \<and>
      I h' \<and> T h1 h' \<and> (\<forall>c \<in> set cs. G c h')"
  proof (rule forEach_rel)
    show "I h1" by (simp add: I_def ok1 same_shape_refl)
    show "T k k" for k by (simp add: T_def same_shape_refl)
    show "T k1 k3" if "T k1 k2" "T k2 k3" for k1 k2 k3
      using that unfolding T_def same_shape_def by auto
    show "G c k'" if "c \<in> set cs" "G c k" "I k" "T k k'" for c k k'
      unfolding G_def
    proof (intro allI impI)
      fix b assume t: "in_tree h1 c b"
      have "c < length h1" using valid[OF that(1)] len1 by simp
      then have "b < length h1" using in_tree_bound[OF ok1 _ t] by simp
      then have "b < length k" using that(3) by (simp add: I_def same_shape_def)
      moreover have "children_sorted L sb k b" using that(2) t by (simp add: G_def)
      ultimately show "children_sorted L sb k' b" using that(4) by (simp add: T_def)
    qed
    show "\<exists>k'. sortChildren L n sb k (Some c) = Inr k' \<and> I k' \<and> T k k' \<and> G c k'"
      if "c \<in> set cs" "I k" for k c
    proof -
      have k: "struct_ok k" "same_shape h1 k" using that(2) by (simp_all add: I_def)
      have lenk: "length k = length h" using k(2) len1 by (simp add: same_shape_def)
      have c: "c < length k" "length k \<le> n + c"
        using valid[OF that(1)] lenk Suc.prems(3) by simp_all
      obtain k' where k': "sortChildren L n sb k (Some c) = Inr k'" "same_shape k k'"
          "\<forall>b. in_tree k c b \<longrightarrow> children_sorted L sb k' b"
          "\<forall>b < length k. children_sorted L sb k b \<longrightarrow> children_sorted L sb k' b"
        using Suc.IH[OF k(1) c] by blast
      have "I k'"
        using k k'(2) same_shape_struct same_shape_trans unfolding I_def by blast
      moreover have "T k k'" using k'(2,4) by (simp add: T_def)
      moreover have "G c k'"
        unfolding G_def
      proof (intro allI impI)
        fix b assume "in_tree h1 c b"
        then have "in_tree k c b"
          using same_shape_in_tree[OF k(2) ok1] c(1) lenk len1 by simp
        then show "children_sorted L sb k' b" using k'(3) by simp
      qed
      ultimately show ?thesis using k'(1) by blast
    qed
  qed
  then obtain h' where h': "forEach (\<lambda>h' child. sortChildren L n sb h' (Some child)) cs h1 = Inr h'"
      "I h'" "T h1 h'" "\<forall>c \<in> set cs. G c h'"
    by blast
  have res: "sortChildren L (Suc n) sb h (Some a) = Inr h'"
    using h'(1) by (simp add: Let_def h1_def[symmetric] cs_def[symmetric] kids1)
  have shape: "same_shape h h'"
    using shape1 h'(3) same_shape_trans unfolding T_def by blast
  have keep: "children_sorted L sb h' b" if "b < length h" "children_sorted L sb h b" for b
    using keep1[OF that] h'(3) that(1) len1 by (simp add: T_def)
  have below: "children_sorted L sb h' b" if "in_tree h a b" for b
  proof -
    from in_tree_below[OF that] show ?thesis
    proof
      assume "b = a"
      then show ?thesis using sorted1 h'(3) Suc.prems(2) len1 by (simp add: T_def)
    next
      assume "\<exists>c \<in> set (Children (h ! a)). in_tree h c b"
      then obtain c where c: "c \<in> set (Children (h ! a))" "in_tree h c b" by blast
      have cs: "c \<in> set cs" using c(1) perm by (metis mset_eq_setD)
      have "in_tree h1 c b"
        using same_shape_in_tree[OF shape1 Suc.prems(1) _ c(2)] valid[OF cs] by simp
      then show ?thesis using h'(4) cs by (simp add: G_def)
    qed
  qed
  show ?case using res shape keep below by blast
qed

subsection \<open>recalculateSizes\<close>

lemma same_links_refl: "same_links h h"
  by (simp add: same_links_def)

lemma same_links_trans: "same_links h h1 \<Longrightarrow> same_links h1 h2 \<Longrightarrow> same_links h h2"
  by (simp add: same_links_def)

lemma same_links_sym: "same_links h h' \<Longrightarrow> same_links h' h"
  by (simp add: same_links_def)

lemma same_links_struct:
  assumes "same_links h h'" "struct_ok h"
  shows "struct_ok h'"
  unfolding struct_ok_def
proof (intro allI impI)
  fix a assume "a < length h'"
  then have a: "a < length h" using assms(1) by (simp add: same_links_def)
  then have ok: "node_ok h a" using assms(2) by (simp add: struct_ok_def)
  show "node_ok h' a"
  proof (rule node_ok_cong[OF ok])
    show "Parent (h' ! c) = Parent (h ! c)" if "c \<in> set (Children (h ! a))" for c
      using that ok assms(1) unfolding node_ok_def same_links_def by simp
  qed (use assms(1) a in \<open>simp_all add: same_links_def\<close>)
qed

lemma same_links_in_tree:
  assumes "same_links h h'" "struct_ok h" "r < length h" "in_tree h r d"
  shows "in_tree h' r d"
proof (rule in_tree_transfer[OF assms(4)])
  fix a assume "in_tree h r a"
  then have "a < length h" using in_tree_bound[OF assms(2,3)] by simp
  then show "set (Children (h ! a)) \<subseteq> set (Children (h' ! a))"
    using assms(1) by (simp add: same_links_def)
qed

lemma same_links_in_tree_iff:
  assumes "same_links h h'" "struct_ok h" "r < length h"
  shows "in_tree h' r d \<longleftrightarrow> in_tree h r d"
proof
  assume "in_tree h r d"
  then show "in_tree h' r d" by (rule same_links_in_tree[OF assms])
next
  assume t: "in_tree h' r d"
  have "same_links h' h" using assms(1) by (rule same_links_sym)
  moreover have "struct_ok h'" using assms(1,2) by (rule same_links_struct)
  moreover have "r < length h'" using assms(1,3) by (simp add: same_links_def)
  ultimately show "in_tree h r d" using t by (rule same_links_in_tree)
qed

lemma set_Size_links: "a < length h \<Longrightarrow> same_links h (h[a := (h ! a)\<lparr>Size := v\<rparr>])"
  by (simp add: same_links_def nth_list_update)

lemma foldl_total:
  "foldl (\<lambda>t child. t + Size (h ! child)) z cs = z + sum_list (map (\<lambda>c. Size (h ! c)) cs)"
  by (induction cs arbitrary: z) (simp_all add: add.assoc)

lemma sum_list_none_changed:
  assumes "\<And>c. c \<in> set cs \<Longrightarrow> g c = f c"
  shows "sum_list (map g cs) = sum_list (map f cs)"
  using assms by (simp cong: map_cong)

lemma sum_list_one_changed:
  fixes f g :: "addr \<Rightarrow> int64"
  assumes "distinct cs" "a \<in> set cs" "\<And>c. c \<in> set cs \<Longrightarrow> c \<noteq> a \<Longrightarrow> g c = f c"
  shows "sum_list (map g cs) = sum_list (map f cs) + (g a - f a)"
  using assms
proof (induction cs)
  case Nil
  then show ?case by simp
next
  case (Cons c cs)
  show ?case
  proof (cases "c = a")
    case True
    then have "a \<notin> set cs" using Cons.prems(1) by simp
    then have "sum_list (map g cs) = sum_list (map f cs)"
      using Cons.prems(3) by (intro sum_list_none_changed) auto
    then show ?thesis using True by simp
  next
    case False
    then have "sum_list (map g cs) = sum_list (map f cs) + (g a - f a)"
      using Cons by simp
    moreover have "g c = f c" using Cons.prems(3) False by simp
    ultimately show ?thesis by simp
  qed
qed

lemma child_sum_unchanged:
  assumes "Children (h' ! b) = Children (h ! b)"
    and "\<And>c. c \<in> set (Children (h ! b)) \<Longrightarrow> Size (h' ! c) = Size (h ! c)"
  shows "child_sum h' b = child_sum h b"
  unfolding child_sum_def assms(1) by (rule sum_list_none_changed) (simp add: assms(2))

text \<open>
  One call of \<open>recalculateSizes\<close> at a node \<open>a\<close> whose own size is the only stale one:
  it returns, it changes sizes only, every node from \<open>a\<close> up to the root moves by the
  amount \<open>a\<close> was off, and all sizes are right afterwards.
\<close>

lemma recalculateSizes_ok:
  assumes ok: "struct_ok h" and r: "r < length h" "Parent (h ! r) = None"
    and tree: "in_tree h r a" and stack: "a < stack"
    and others: "\<forall>b < length h. b \<noteq> a \<longrightarrow> size_ok h b"
  shows "\<exists>h'. recalculateSizes stack h (Some a) = Inr h' \<and> same_links h h' \<and> sizes_ok h' \<and>
           (\<forall>b < length h. Size (h' ! b) =
              (if in_tree h b a then Size (h ! b) + (child_sum h a - Size (h ! a)) else Size (h ! b)))"
  using assms
proof (induction stack arbitrary: h a)
  case 0
  then show ?case by simp
next
  case (Suc n)
  note ok = Suc.prems(1) and r = Suc.prems(2,3) and tree = Suc.prems(4) and others = Suc.prems(6)
  have a: "a < length h" using in_tree_bound[OF ok r(1) tree] by simp
  have node_a: "node_ok h a" using ok a by (simp add: struct_ok_def)
  define h1 where "h1 = h[a := (h ! a)\<lparr>Size := child_sum h a\<rparr>]"
  have links1: "same_links h h1" unfolding h1_def by (rule set_Size_links[OF a])
  have ok1: "struct_ok h1" using links1 ok by (rule same_links_struct)
  have len1: "length h1 = length h" by (simp add: h1_def)
  have size1: "Size (h1 ! b) = (if b = a then child_sum h a else Size (h ! b))" if "b < length h" for b
    using that by (simp add: h1_def nth_list_update)
  have kids1: "Children (h1 ! b) = Children (h ! b)" if "b < length h" for b
    using that links1 by (simp add: same_links_def)
  have not_child: "a \<notin> set (Children (h ! b))" if "b < length h" "Parent (h ! a) \<noteq> Some b" for b
    using that ok unfolding struct_ok_def node_ok_def by blast
  have sum_same: "child_sum h1 b = child_sum h b" if "b < length h" "Parent (h ! a) \<noteq> Some b" for b
  proof (rule child_sum_unchanged[OF kids1[OF that(1)]])
    fix c assume c: "c \<in> set (Children (h ! b))"
    then have "c \<noteq> a" using not_child[OF that] by auto
    moreover have "c < length h" using c ok that(1) unfolding struct_ok_def node_ok_def by blast
    ultimately show "Size (h1 ! c) = Size (h ! c)" by (simp add: size1)
  qed
  have not_own: "Parent (h ! a) \<noteq> Some a" using node_a by (auto simp: node_ok_def)
  have fixed_a: "size_ok h1 a"
    using sum_same[OF a not_own] a by (simp add: size_ok_def size1)
  have fixed: "size_ok h1 b" if "b < length h" "Parent (h ! a) \<noteq> Some b" for b
  proof (cases "b = a")
    case True
    then show ?thesis using fixed_a by simp
  next
    case False
    have "IsDir (h1 ! b) = IsDir (h ! b)" using links1 that(1) by (simp add: same_links_def)
    then show ?thesis
      using others that False sum_same[OF that] by (simp add: size_ok_def size1)
  qed
  have step: "recalculateSizes (Suc n) h (Some a) =
      (if Parent (h ! a) \<noteq> None then recalculateSizes n h1 (Parent (h ! a)) else Inr h1)"
    using a by (simp add: Let_def foldl_total h1_def child_sum_def)
  show ?case
  proof (cases "Parent (h ! a)")
    case None
    have top: "in_tree h b a \<longleftrightarrow> b = a" if "b < length h" for b
      using in_tree_up[OF ok that _ None] by (auto intro: in_tree.intros)
    have "sizes_ok h1"
      unfolding sizes_ok_def using fixed None len1 by simp
    moreover have "\<forall>b < length h. Size (h1 ! b) =
        (if in_tree h b a then Size (h ! b) + (child_sum h a - Size (h ! a)) else Size (h ! b))"
      using top by (simp add: size1)
    ultimately show ?thesis using step None links1 by simp
  next
    case (Some p)
    have "a \<noteq> r" using r(2) Some by auto
    then have up: "a \<in> set (Children (h ! p))" "in_tree h r p"
      using in_tree_parent[OF ok r(1) tree] Some by auto
    have p: "p < a" using node_a Some by (auto simp: node_ok_def)
    have plen: "p < length h" using p a by simp
    have node_p: "node_ok h p" using ok plen by (simp add: struct_ok_def)
    have dir_p: "IsDir (h ! p)" using node_p up(1) by (auto simp: node_ok_def)
    have size_p: "Size (h ! p) = child_sum h p"
      using others plen p dir_p by (simp add: size_ok_def)
    define delta where "delta = child_sum h a - Size (h ! a)"
    have sum_p: "child_sum h1 p = child_sum h p + delta"
    proof -
      have valid: "c < length h" if "c \<in> set (Children (h ! p))" for c
        using that node_p by (auto simp: node_ok_def)
      have "sum_list (map (\<lambda>c. Size (h1 ! c)) (Children (h ! p))) =
            sum_list (map (\<lambda>c. Size (h ! c)) (Children (h ! p))) + (Size (h1 ! a) - Size (h ! a))"
      proof (rule sum_list_one_changed)
        show "distinct (Children (h ! p))" using node_p by (simp add: node_ok_def)
        show "a \<in> set (Children (h ! p))" by (rule up(1))
        show "Size (h1 ! c) = Size (h ! c)" if "c \<in> set (Children (h ! p))" "c \<noteq> a" for c
          using that valid by (simp add: size1)
      qed
      then show ?thesis
        using a plen by (simp add: child_sum_def kids1 size1 delta_def)
    qed
    have delta1: "child_sum h1 p - Size (h1 ! p) = delta"
      using sum_p size_p plen p by (simp add: size1)
    have others1: "\<forall>b < length h1. b \<noteq> p \<longrightarrow> size_ok h1 b"
      using fixed Some len1 by simp
    have r1: "r < length h1" "Parent (h1 ! r) = None"
      using r links1 by (simp_all add: same_links_def)
    have tree1: "in_tree h1 r p" using same_links_in_tree[OF links1 ok r(1) up(2)] .
    have "p < n" using p Suc.prems(5) by simp
    from Suc.IH[OF ok1 r1 tree1 this others1]
    obtain h' where h': "recalculateSizes n h1 (Some p) = Inr h'" "same_links h1 h'" "sizes_ok h'"
        "\<forall>b < length h1. Size (h' ! b) =
           (if in_tree h1 b p then Size (h1 ! b) + (child_sum h1 p - Size (h1 ! p)) else Size (h1 ! b))"
      by blast
    have sizes: "Size (h' ! b) =
        (if in_tree h b a then Size (h ! b) + (child_sum h a - Size (h ! a)) else Size (h ! b))"
      if b: "b < length h" for b
    proof -
      have iff1: "in_tree h1 b p \<longleftrightarrow> in_tree h b p"
        by (rule same_links_in_tree_iff[OF links1 ok b])
      have iff2: "in_tree h b a \<longleftrightarrow> b = a \<or> in_tree h b p"
        by (rule in_tree_via_parent[OF ok b Some up(1)])
      have eq: "Size (h' ! b) = (if in_tree h b p then Size (h1 ! b) + delta else Size (h1 ! b))"
        using h'(4) b len1 iff1 delta1 by simp
      show ?thesis
      proof (cases "b = a")
        case True
        have "\<not> in_tree h a p"
          using in_tree_bound[OF ok a, of p] p by auto
        then show ?thesis using eq True a iff2 by (simp add: size1 delta_def)
      next
        case False
        then show ?thesis using eq b iff2 by (simp add: size1 delta_def)
      qed
    qed
    have "recalculateSizes (Suc n) h (Some a) = Inr h'"
      using step Some h'(1) by simp
    moreover have "same_links h h'" using links1 h'(2) by (rule same_links_trans)
    ultimately show ?thesis using h'(3) sizes by blast
  qed
qed

subsection \<open>Finding a node among the children\<close>

lemma indexOf_Some:
  assumes "x \<in> set xs"
  shows "\<exists>i. indexOf x xs = Some i \<and> i < length xs \<and> xs ! i = x \<and>
             take i xs @ drop (i + 1) xs = remove1 x xs"
  using assms
proof (induction xs)
  case Nil
  then show ?case by simp
next
  case (Cons y ys)
  show ?case
  proof (cases "y = x")
    case True
    then show ?thesis by simp
  next
    case False
    then obtain i where "indexOf x ys = Some i" "i < length ys" "ys ! i = x"
        "take i ys @ drop (i + 1) ys = remove1 x ys"
      using Cons by auto
    then show ?thesis using False by simp
  qed
qed

lemma indexOf_None: "x \<notin> set xs \<Longrightarrow> indexOf x xs = None"
  by (induction xs) auto

lemma indexOf_nth:
  assumes "distinct xs" "i < length xs"
  shows "indexOf (xs ! i) xs = Some i"
  using assms
proof (induction xs arbitrary: i)
  case Nil
  then show ?case by simp
next
  case (Cons y ys)
  show ?case
  proof (cases i)
    case 0
    then show ?thesis by simp
  next
    case (Suc j)
    then have "ys ! j \<in> set ys" using Cons.prems by simp
    then have "y \<noteq> ys ! j" using Cons.prems(1) by auto
    then show ?thesis using Cons Suc by simp
  qed
qed

subsection \<open>Detaching a child and recomputing the sizes above it\<close>

lemma detach_in_tree:
  assumes ok: "struct_ok h" and r: "r < length h" and t: "in_tree h r x" and x: "x \<le> c"
    and h2: "\<And>b. b \<noteq> c \<Longrightarrow> Children (h2 ! b) = Children (h ! b)"
  shows "in_tree h2 r x"
  using t x
proof (induction rule: in_tree.induct)
  case in_tree_root
  show ?case by (rule in_tree.in_tree_root)
next
  case (in_tree_child a y)
  have "a < length h" using in_tree_bound[OF ok r in_tree_child(1)] by simp
  then have "a < y" using ok in_tree_child(2) unfolding struct_ok_def node_ok_def by blast
  then have "a \<noteq> c" "a \<le> c" using in_tree_child(4) by simp_all
  then show ?case using in_tree_child h2 by (auto intro: in_tree.in_tree_child)
qed

lemma detach_ok:
  assumes ok: "struct_ok h" and sz: "sizes_ok h"
    and r: "r < length h" "Parent (h ! r) = None"
    and tree: "in_tree h r c" and t: "t \<in> set (Children (h ! c))" and stack: "c < stack"
    and h2: "h2 = h[c := (h ! c)\<lparr>Children := remove1 t (Children (h ! c))\<rparr>]"
  shows "\<exists>h3. recalculateSizes stack h2 (Some c) = Inr h3 \<and> same_links h2 h3 \<and>
           struct_ok h3 \<and> sizes_ok h3 \<and> in_tree h3 r c \<and>
           (\<forall>b < length h. Size (h3 ! b) =
              (if in_tree h b c then Size (h ! b) - Size (h ! t) else Size (h ! b)))"
proof -
  have c: "c < length h" using in_tree_bound[OF ok r(1) tree] by simp
  have node_c: "node_ok h c" using ok c by (simp add: struct_ok_def)
  have len2: "length h2 = length h" by (simp add: h2)
  have kids2: "Children (h2 ! b) = (if b = c then remove1 t (Children (h ! c)) else Children (h ! b))"
    if "b < length h" for b
    using that c by (simp add: h2 nth_list_update)
  have other2: "h2 ! b = h ! b" if "b \<noteq> c" for b
    using that by (simp add: h2)
  have fields2: "Parent (h2 ! b) = Parent (h ! b)" "IsDir (h2 ! b) = IsDir (h ! b)"
      "Size (h2 ! b) = Size (h ! b)" for b
    using c by (cases "b = c"; simp add: h2)+
  have ok2: "struct_ok h2"
    unfolding struct_ok_def
  proof (intro allI impI)
    fix b assume "b < length h2"
    then have b: "b < length h" using len2 by simp
    then have nb: "node_ok h b" using ok by (simp add: struct_ok_def)
    have sub: "set (Children (h2 ! b)) \<subseteq> set (Children (h ! b))"
      using kids2[OF b] set_remove1_subset[of t "Children (h ! c)"] by auto
    have "distinct (Children (h2 ! b))"
      using kids2[OF b] nb by (auto simp: node_ok_def)
    moreover have "Children (h2 ! b) \<noteq> [] \<longrightarrow> Children (h ! b) \<noteq> []"
      using sub by auto
    ultimately show "node_ok h2 b"
      using nb sub fields2 b len2 unfolding node_ok_def by (auto simp: subset_iff)
  qed
  have tree2: "in_tree h2 r c"
    by (rule detach_in_tree[OF ok r(1) tree order_refl]) (simp add: other2)
  have others2: "\<forall>b < length h2. b \<noteq> c \<longrightarrow> size_ok h2 b"
  proof (intro allI impI)
    fix b assume b: "b < length h2" "b \<noteq> c"
    then have "size_ok h b" using sz len2 by (simp add: sizes_ok_def)
    moreover have "child_sum h2 b = child_sum h b"
      by (rule child_sum_unchanged) (use b in \<open>simp_all add: other2 fields2\<close>)
    ultimately show "size_ok h2 b" using b by (simp add: size_ok_def other2)
  qed
  have r2: "r < length h2" "Parent (h2 ! r) = None" using r fields2 len2 by simp_all
  from recalculateSizes_ok[OF ok2 r2 tree2 stack others2]
  obtain h3 where h3: "recalculateSizes stack h2 (Some c) = Inr h3" "same_links h2 h3" "sizes_ok h3"
      "\<forall>b < length h2. Size (h3 ! b) =
         (if in_tree h2 b c then Size (h2 ! b) + (child_sum h2 c - Size (h2 ! c)) else Size (h2 ! b))"
    by blast
  have dir_c: "IsDir (h ! c)" using node_c t by (auto simp: node_ok_def)
  have size_c: "Size (h ! c) = child_sum h c" using sz c dir_c by (simp add: sizes_ok_def size_ok_def)
  have "sum_list (map (\<lambda>x. Size (h ! x)) (Children (h ! c))) =
        Size (h ! t) + sum_list (map (\<lambda>x. Size (h ! x)) (remove1 t (Children (h ! c))))"
    using t by (induction "Children (h ! c)") (auto simp: sum_list_map_remove1)
  then have "child_sum h c = Size (h ! t) + child_sum h2 c"
    unfolding child_sum_def kids2[OF c] by (simp add: fields2)
  then have delta: "child_sum h2 c - Size (h2 ! c) = - Size (h ! t)"
    using size_c fields2(3)[of c] by simp
  have same_tree: "in_tree h2 b c \<longleftrightarrow> in_tree h b c" if "b < length h" for b
  proof
    assume "in_tree h b c"
    then show "in_tree h2 b c"
      by (rule detach_in_tree[OF ok that _ order_refl]) (simp add: other2)
  next
    assume "in_tree h2 b c"
    then show "in_tree h b c"
    proof (rule in_tree_transfer)
      fix a show "set (Children (h2 ! a)) \<subseteq> set (Children (h ! a))"
        using set_remove1_subset[of t "Children (h ! c)"] c
        by (cases "a = c") (auto simp: h2 nth_list_update other2)
    qed
  qed
  have "\<forall>b < length h. Size (h3 ! b) =
      (if in_tree h b c then Size (h ! b) - Size (h ! t) else Size (h ! b))"
    using h3(4) len2 same_tree delta fields2(3) by simp
  moreover have "struct_ok h3" using h3(2) ok2 by (rule same_links_struct)
  moreover have "in_tree h3 r c" using same_links_in_tree[OF h3(2) ok2 r2(1) tree2] .
  ultimately show ?thesis using h3(1,2,3) by blast
qed

subsection \<open>The invariant of a session\<close>

lemma world_okI:
  assumes "struct_ok (heap s)" "sizes_ok (heap s)" "\<not> scanning m" "cursor_ok m (heap s)"
    and "case rootDir m of
           None \<Rightarrow> currentDir m = None
         | Some r \<Rightarrow> r < length (heap s) \<and> Parent (heap s ! r) = None \<and>
                     (\<exists>cur. currentDir m = Some cur \<and> in_tree (heap s) r cur)"
    and "deleting m \<longleftrightarrow> fl \<noteq> None"
    and "\<And>t. fl = Some t \<Longrightarrow> \<exists>cur. currentDir m = Some cur \<and> t \<in> set (Children (heap s ! cur))"
  shows "world_ok \<lparr>mdl = m, mach = s, inflight = fl\<rparr>"
  using assms unfolding world_ok_def by (auto split: option.splits)

lemma world_ok_cur:
  assumes "world_ok w" "currentDir (mdl w) = Some cur"
  obtains r where "rootDir (mdl w) = Some r" "r < length (heap (mach w))"
    "Parent (heap (mach w) ! r) = None" "in_tree (heap (mach w)) r cur"
    "cur < length (heap (mach w))" "node_ok (heap (mach w)) cur"
proof -
  from assms obtain r where r: "rootDir (mdl w) = Some r" "r < length (heap (mach w))"
    "Parent (heap (mach w) ! r) = None" "in_tree (heap (mach w)) r cur"
    unfolding world_ok_def by (cases "rootDir (mdl w)") auto
  have ok: "struct_ok (heap (mach w))" using assms(1) by (simp add: world_ok_def)
  have "cur < length (heap (mach w))" using in_tree_bound[OF ok r(2,4)] by simp
  moreover from this have "node_ok (heap (mach w)) cur" using ok by (simp add: struct_ok_def)
  ultimately show ?thesis using r that by blast
qed

lemma scanned_ok:
  assumes sc: "sort_contract (sort_Slice L)"
  shows "\<exists>w. scanned L stack path fs = Inr w \<and> world_ok w \<and> \<not> deleting (mdl w) \<and>
             sortBy (mdl w) = ''size'' \<and> cursor (mdl w) = 0 \<and> currentDir (mdl w) = rootDir (mdl w)"
proof -
  define s0 where "s0 = empty_machine\<lparr>filesCount := 0, dirsCount := 0, currentRoot := None\<rparr>"
  obtain res s1 where call: "calculateDirSizeWithProgress L path None fs s0 = (res, s1)"
    by (cases "calculateDirSizeWithProgress L path None fs s0")
  have post: "calc_post None s0 (res, s1)"
    using scan_post(1)[OF sc, of None s0 path fs] call by simp
  have h0: "heap s0 = []" by (simp add: s0_def empty_machine_def)
  show ?thesis
  proof (cases res)
    case (Inl err)
    then have "s1 = s0" using post by (simp add: calc_post_def)
    then have "scanned L stack path fs =
        Inr \<lparr>mdl = initialModel\<lparr>scanning := False, rootDir := None, currentDir := None,
               scanError := Some err, scanProgress := None\<rparr>, mach = s0, inflight = None\<rparr>"
      using call Inl by (simp add: scanned_def scanDirectory_def s0_def)
    moreover have "world_ok \<lparr>mdl = initialModel\<lparr>scanning := False, rootDir := None,
        currentDir := None, scanError := Some err, scanProgress := None\<rparr>, mach = s0, inflight = None\<rparr>"
      by (rule world_okI)
        (simp_all add: h0 struct_ok_def sizes_ok_def cursor_ok_def initialModel_def)
    ultimately show ?thesis by (simp add: initialModel_def)
  next
    case (Inr root)
    then have root: "root = 0" "0 < length (heap s1)" "Parent (heap s1 ! 0) = None"
        "new_ok 0 (heap s1)"
      using post h0 by (auto simp: calc_post_def)
    define s2 where "s2 = scanDirectory_final s1"
    have h2: "heap s2 = heap s1"
      by (simp add: s2_def scanDirectory_final_def split: option.split)
    have "scanned L stack path fs =
        Inr \<lparr>mdl = initialModel\<lparr>scanning := False, rootDir := Some 0, currentDir := Some 0,
               scanError := None, scanProgress := None\<rparr>, mach = s2, inflight = None\<rparr>"
      using call Inr root(1) by (simp add: scanned_def scanDirectory_def s0_def s2_def)
    moreover have "world_ok \<lparr>mdl = initialModel\<lparr>scanning := False, rootDir := Some 0,
        currentDir := Some 0, scanError := None, scanProgress := None\<rparr>, mach = s2, inflight = None\<rparr>"
    proof (rule world_okI)
      show "struct_ok (heap s2)" "sizes_ok (heap s2)"
        using root(4) by (simp_all add: h2 new_ok_def struct_ok_def sizes_ok_def)
    qed (use root in \<open>auto simp: h2 cursor_ok_def initialModel_def intro: in_tree.intros\<close>)
    ultimately show ?thesis by (simp add: initialModel_def)
  qed
qed

lemma index_at_ok:
  assumes "0 \<le> i" "i \<le> max 0 (int (length xs) - 1)" "xs \<noteq> []"
  shows "index_at xs i = Inr (xs ! nat i) \<and> nat i < length xs"
  using assms by (cases xs) (auto simp: index_at_def)

lemma keyAction_ok:
  assumes sc: "sort_contract (sort_Slice L)" and ok: "world_ok w" and nd: "\<not> deleting (mdl w)"
    and stack: "length (heap (mach w)) < stack"
  shows "\<exists>m' s' cmds. keyAction L stack (mdl w) (mach w) lab = Inr (m', s', cmds) \<and>
           world_ok \<lparr>mdl = m', mach = s', inflight = started cmds (inflight w)\<rparr> \<and>
           length (heap s') = length (heap (mach w))"
proof -
  define m where "m = mdl w"
  define s where "s = mach w"
  define h where "h = heap s"
  have fl: "inflight w = None" using ok nd by (simp add: world_ok_def)
  have st: "struct_ok h" and sz: "sizes_ok h" and ns: "\<not> scanning m" and co: "cursor_ok m h"
    and rt: "case rootDir m of
               None \<Rightarrow> currentDir m = None
             | Some r \<Rightarrow> r < length h \<and> Parent (h ! r) = None \<and>
                         (\<exists>cur. currentDir m = Some cur \<and> in_tree h r cur)"
    using ok unfolding world_ok_def m_def s_def h_def by (auto split: option.splits)
  have ndm: "\<not> deleting m" using nd by (simp add: m_def)
  have keep: "world_ok \<lparr>mdl = m', mach = s, inflight = None\<rparr>"
    if "cursor_ok m' h" "rootDir m' = rootDir m" "scanning m' = scanning m"
      "deleting m' = deleting m"
      "case rootDir m of None \<Rightarrow> currentDir m' = None
       | Some r \<Rightarrow> \<exists>cur. currentDir m' = Some cur \<and> in_tree h r cur" for m'
    by (rule world_okI) (use that st sz ns rt ndm in \<open>auto simp: h_def split: option.splits\<close>)
  have same: "world_ok \<lparr>mdl = m, mach = s, inflight = None\<rparr>"
    by (rule keep) (use co rt in \<open>auto split: option.splits\<close>)
  have cur_facts: "\<exists>r. rootDir m = Some r \<and> r < length h \<and> Parent (h ! r) = None \<and>
      in_tree h r cur \<and> cur < length h \<and> node_ok h cur" if "currentDir m = Some cur" for cur
    using world_ok_cur[OF ok, of cur] that by (auto simp: m_def s_def h_def)
  have "\<exists>m' s' cmds. keyAction L stack m s lab = Inr (m', s', cmds) \<and>
           world_ok \<lparr>mdl = m', mach = s', inflight = started cmds None\<rparr> \<and>
           length (heap s') = length (heap s)"
  proof (cases lab)
    case CaseQuit
    then show ?thesis using same by simp
  next
    case CaseUp
    have "world_ok \<lparr>mdl = m\<lparr>cursor := cursor m - 1\<rparr>, mach = s, inflight = None\<rparr>" if "cursor m > 0"
      by (rule keep) (use that co rt in \<open>auto simp: cursor_ok_def split: option.splits\<close>)
    then show ?thesis using CaseUp same by simp
  next
    case CaseDown
    have "world_ok \<lparr>mdl = m\<lparr>cursor := cursor m + 1\<rparr>, mach = s, inflight = None\<rparr>"
      if "currentDir m = Some cur" "cursor m < int (length (Children (h ! cur))) - 1" for cur
      by (rule keep) (use that co rt in \<open>auto simp: cursor_ok_def split: option.splits\<close>)
    then show ?thesis using CaseDown same by (auto simp: h_def split: option.splits)
  next
    case CaseEnter
    show ?thesis
    proof (cases "currentDir m")
      case None
      then show ?thesis using CaseEnter same by simp
    next
      case (Some cur)
      show ?thesis
      proof (cases "Children (h ! cur) = []")
        case True
        then show ?thesis using CaseEnter Some same by (simp add: h_def)
      next
        case False
        have "cursor m \<le> max 0 (int (length (Children (h ! cur))) - 1)" "0 \<le> cursor m"
          using co Some by (simp_all add: cursor_ok_def)
        then have ix: "index_at (Children (h ! cur)) (cursor m) = Inr (Children (h ! cur) ! nat (cursor m))"
            "nat (cursor m) < length (Children (h ! cur))"
          using index_at_ok[OF _ _ False] by simp_all
        define sel where "sel = Children (h ! cur) ! nat (cursor m)"
        have sel: "sel \<in> set (Children (h ! cur))" using ix(2) by (simp add: sel_def)
        obtain r where r: "rootDir m = Some r" "in_tree h r cur"
          using cur_facts[OF Some] by blast
        have "world_ok \<lparr>mdl = m\<lparr>currentDir := Some sel, cursor := 0\<rparr>, mach = s, inflight = None\<rparr>"
          by (rule keep) (use r sel in \<open>auto simp: cursor_ok_def intro: in_tree.in_tree_child\<close>)
        then show ?thesis
          using CaseEnter Some False ix(1) same by (simp add: h_def[symmetric] sel_def)
      qed
    qed
  next
    case CaseLeft
    show ?thesis
    proof (cases "currentDir m")
      case None
      then show ?thesis using CaseLeft same by simp
    next
      case (Some cur)
      show ?thesis
      proof (cases "Parent (h ! cur)")
        case None
        then show ?thesis using CaseLeft Some same by (simp add: h_def)
      next
        case par: (Some p)
        obtain r where r: "rootDir m = Some r" "r < length h" "Parent (h ! r) = None"
            "in_tree h r cur"
          using cur_facts[OF Some] by blast
        have "cur \<noteq> r" using r(3) par by auto
        then have up: "cur \<in> set (Children (h ! p))" "in_tree h r p"
          using in_tree_parent[OF st r(2,4)] par by auto
        obtain i where i: "indexOf cur (Children (h ! p)) = Some i" "i < length (Children (h ! p))"
          using indexOf_Some[OF up(1)] by blast
        have "world_ok \<lparr>mdl = m\<lparr>cursor := int i, currentDir := Some p\<rparr>, mach = s, inflight = None\<rparr>"
          by (rule keep) (use r up i in \<open>auto simp: cursor_ok_def\<close>)
        then show ?thesis
          using CaseLeft Some par i(1) by (simp add: h_def[symmetric])
      qed
    qed
  next
    case CaseSort
    define m1 where "m1 = (if sortBy m = ''size'' then m\<lparr>sortBy := ''name''\<rparr> else m\<lparr>sortBy := ''size''\<rparr>)"
    have m1: "rootDir m1 = rootDir m" "currentDir m1 = currentDir m" "scanning m1 = scanning m"
        "deleting m1 = deleting m"
      by (simp_all add: m1_def)
    obtain n where n: "stack = Suc n" using stack by (cases stack) auto
    show ?thesis
    proof (cases "rootDir m")
      case None
      then have cur: "currentDir m = None" using rt by simp
      have "world_ok \<lparr>mdl = m1\<lparr>cursor := 0\<rparr>, mach = s, inflight = None\<rparr>"
        by (rule keep) (use None cur m1 in \<open>auto simp: cursor_ok_def\<close>)
      moreover have "s\<lparr>heap := heap s\<rparr> = s" by simp
      ultimately show ?thesis
        using CaseSort None n m1 by (simp add: m1_def[symmetric] Let_def)
    next
      case (Some r)
      then obtain cur where r: "r < length h" "Parent (h ! r) = None" "currentDir m = Some cur"
          "in_tree h r cur"
        using rt by auto
      have "length h \<le> stack + r" using stack by (simp add: h_def s_def)
      from sortChildren_ok[OF sc st r(1) this, of "sortBy m1"]
      obtain h' where h': "sortChildren L stack (sortBy m1) h (Some r) = Inr h'" "same_shape h h'"
        by blast
      have len: "length h' = length h" using h'(2) by (simp add: same_shape_def)
      have len_s: "length h' = length (heap s)" using len by (simp add: h_def)
      have "world_ok \<lparr>mdl = m1\<lparr>cursor := 0\<rparr>, mach = s\<lparr>heap := h'\<rparr>, inflight = None\<rparr>"
      proof (rule world_okI)
        show "struct_ok (heap (s\<lparr>heap := h'\<rparr>))"
          using same_shape_struct[OF h'(2) st] by simp
        show "sizes_ok (heap (s\<lparr>heap := h'\<rparr>))"
          using same_shape_sizes[OF h'(2) st sz] by simp
        show "cursor_ok (m1\<lparr>cursor := 0\<rparr>) (heap (s\<lparr>heap := h'\<rparr>))"
          by (simp add: cursor_ok_def m1 r(3))
        show "case rootDir (m1\<lparr>cursor := 0\<rparr>) of
                None \<Rightarrow> currentDir (m1\<lparr>cursor := 0\<rparr>) = None
              | Some r \<Rightarrow> r < length (heap (s\<lparr>heap := h'\<rparr>)) \<and>
                          Parent (heap (s\<lparr>heap := h'\<rparr>) ! r) = None \<and>
                          (\<exists>cur. currentDir (m1\<lparr>cursor := 0\<rparr>) = Some cur \<and>
                                 in_tree (heap (s\<lparr>heap := h'\<rparr>)) r cur)"
          using Some r same_shape_in_tree[OF h'(2) st r(1,4)] h'(2) len
          by (simp add: m1 same_shape_def)
      qed (use ns ndm m1 in auto)
      then show ?thesis
        using CaseSort Some h'(1) len by (simp add: m1_def[symmetric] Let_def h_def[symmetric] m1)
    qed
  next
    case CaseHome
    have "world_ok \<lparr>mdl = m\<lparr>currentDir := rootDir m, cursor := 0\<rparr>, mach = s, inflight = None\<rparr>"
      by (rule keep) (use rt in \<open>auto simp: cursor_ok_def intro: in_tree.in_tree_root split: option.splits\<close>)
    then show ?thesis using CaseHome by simp
  next
    case CaseDelete
    show ?thesis
    proof (cases "currentDir m")
      case None
      then show ?thesis using CaseDelete same by simp
    next
      case (Some cur)
      show ?thesis
      proof (cases "Children (h ! cur) = []")
        case True
        then show ?thesis using CaseDelete Some same by (simp add: h_def)
      next
        case False
        have "cursor m \<le> max 0 (int (length (Children (h ! cur))) - 1)" "0 \<le> cursor m"
          using co Some by (simp_all add: cursor_ok_def)
        then have ix: "index_at (Children (h ! cur)) (cursor m) = Inr (Children (h ! cur) ! nat (cursor m))"
            "nat (cursor m) < length (Children (h ! cur))"
          using index_at_ok[OF _ _ False] by simp_all
        define t where "t = Children (h ! cur) ! nat (cursor m)"
        have t: "t \<in> set (Children (h ! cur))" using ix(2) by (simp add: t_def)
        define m' where "m' = m\<lparr>deleteTarget := Some t,
            deleteFilename := filepath_Base L (Path (h ! t)), deleting := True, deleteSpinner := 0\<rparr>"
        have "world_ok \<lparr>mdl = m', mach = s, inflight = Some t\<rparr>"
          by (rule world_okI)
            (use st sz ns co rt Some t in \<open>auto simp: m'_def h_def cursor_ok_def split: option.splits\<close>)
        then show ?thesis
          using CaseDelete Some False ix(1) by (simp add: h_def[symmetric] t_def m'_def)
      qed
    qed
  next
    case NoCase
    then show ?thesis using same by simp
  qed
  then show ?thesis by (simp add: m_def s_def h_def fl)
qed

lemma deleteComplete_failure:
  "deleteComplete stack m s t (Some e) fname =
     Inr (m\<lparr>deleting := False, statusMsg := ''Error deleting: '' @ e\<rparr>, s, [])"
  by (simp add: deleteComplete_def)

text \<open>
  The completion of a successful delete, in a world that satisfies the invariant: the
  target leaves the children of the current node, the sizes from the current node up to
  the root drop by the size of the target, and nothing else changes.
\<close>

lemma deleteComplete_success:
  assumes ok: "world_ok w" and fl: "inflight w = Some t"
    and stack: "length (heap (mach w)) < stack"
  shows "\<exists>cur m' s'.
           currentDir (mdl w) = Some cur \<and> t \<in> set (Children (heap (mach w) ! cur)) \<and>
           deleteComplete stack (mdl w) (mach w) t None fname = Inr (m', s', []) \<and>
           world_ok \<lparr>mdl = m', mach = s', inflight = None\<rparr> \<and>
           length (heap s') = length (heap (mach w)) \<and>
           currentDir m' = Some cur \<and> rootDir m' = rootDir (mdl w) \<and>
           sortBy m' = sortBy (mdl w) \<and>
           cursor m' =
             (if cursor (mdl w) \<ge> int (length (Children (heap (mach w) ! cur))) - 1 \<and> cursor (mdl w) > 0
              then cursor (mdl w) - 1 else cursor (mdl w)) \<and>
           same_links ((heap (mach w))[cur := (heap (mach w) ! cur)
               \<lparr>Children := remove1 t (Children (heap (mach w) ! cur))\<rparr>]) (heap s') \<and>
           (\<forall>b < length (heap (mach w)). Size (heap s' ! b) =
              (if in_tree (heap (mach w)) b cur
               then Size (heap (mach w) ! b) - Size (heap (mach w) ! t)
               else Size (heap (mach w) ! b)))"
proof -
  define m where "m = mdl w"
  define s where "s = mach w"
  define h where "h = heap s"
  from ok fl obtain cur where cur: "currentDir m = Some cur" "t \<in> set (Children (h ! cur))"
    unfolding world_ok_def m_def s_def h_def by blast
  obtain r where r: "rootDir m = Some r" "r < length h" "Parent (h ! r) = None" "in_tree h r cur"
      "cur < length h" "node_ok h cur"
    using world_ok_cur[OF ok, of cur] cur(1) by (auto simp: m_def s_def h_def)
  have st: "struct_ok h" and sz: "sizes_ok h" and ns: "\<not> scanning m" and co: "cursor_ok m h"
    using ok unfolding world_ok_def m_def s_def h_def by auto
  define cs where "cs = Children (h ! cur)"
  define h2 where "h2 = h[cur := (h ! cur)\<lparr>Children := remove1 t cs\<rparr>]"
  obtain i where i: "indexOf t cs = Some i" "take i cs @ drop (i + 1) cs = remove1 t cs"
      "i < length cs"
    using indexOf_Some[of t cs] cur(2) by (auto simp: cs_def)
  have slices: "int (min (length cs) i) + int (length cs - Suc i) = int (length cs) - 1"
    using i(3) by simp
  have nonempty: "cs \<noteq> []" "0 < length cs" using cur(2) by (auto simp: cs_def)
  have "length (remove1 t cs) = length cs - 1"
    using cur(2) by (simp add: cs_def length_remove1)
  then have len': "int (length (remove1 t cs)) = int (length cs) - 1"
    using nonempty(2) by linarith
  have "cur < stack" using r(5) stack by (simp add: h_def s_def)
  from detach_ok[OF st sz r(2,3,4) cur(2) this, of h2]
  obtain h3 where h3: "recalculateSizes stack h2 (Some cur) = Inr h3" "same_links h2 h3"
      "struct_ok h3" "sizes_ok h3" "in_tree h3 r cur"
      "\<forall>b < length h. Size (h3 ! b) =
         (if in_tree h b cur then Size (h ! b) - Size (h ! t) else Size (h ! b))"
    by (auto simp: h2_def cs_def)
  define m2 where "m2 = (if cursor m \<ge> int (length cs) - 1 \<and> cursor m > 0
     then m\<lparr>deleting := False, statusMsg := ''Deleted: '' @ fname, cursor := cursor m - 1\<rparr>
     else m\<lparr>deleting := False, statusMsg := ''Deleted: '' @ fname\<rparr>)"
  have res: "deleteComplete stack m s t None fname = Inr (m2, s\<lparr>heap := h3\<rparr>, [])"
    using cur(1) nonempty i(1,2) h3(1) slices
    by (simp add: deleteComplete_def Let_def h_def[symmetric] cs_def[symmetric] h2_def[symmetric]
        m2_def)
  have len3: "length h3 = length h" using h3(2) by (simp add: same_links_def h2_def)
  have kids3: "Children (h3 ! cur) = remove1 t cs"
    using h3(2) r(5) by (simp add: same_links_def h2_def)
  have root3: "Parent (h3 ! r) = None"
  proof -
    have "Parent (h3 ! r) = Parent (h2 ! r)" using h3(2) r(2) by (simp add: same_links_def h2_def)
    also have "\<dots> = Parent (h ! r)" using r(5) by (cases "r = cur") (simp_all add: h2_def)
    finally show ?thesis using r(3) by simp
  qed
  have "cursor m \<le> max 0 (int (length cs) - 1)" "0 \<le> cursor m"
    using co cur(1) by (simp_all add: cursor_ok_def cs_def)
  then have co3: "cursor_ok m2 h3"
    using cur(1) len' nonempty by (auto simp: cursor_ok_def m2_def kids3)
  have "world_ok \<lparr>mdl = m2, mach = s\<lparr>heap := h3\<rparr>, inflight = None\<rparr>"
  proof (rule world_okI)
    show "case rootDir m2 of
            None \<Rightarrow> currentDir m2 = None
          | Some ra \<Rightarrow> ra < length (heap (s\<lparr>heap := h3\<rparr>)) \<and>
                       Parent (heap (s\<lparr>heap := h3\<rparr>) ! ra) = None \<and>
                       (\<exists>c. currentDir m2 = Some c \<and> in_tree (heap (s\<lparr>heap := h3\<rparr>)) ra c)"
      using r(1,2) root3 h3(5) cur(1) len3 by (simp add: m2_def)
  qed (use h3 co3 ns in \<open>auto simp: m2_def\<close>)
  moreover have "cursor m2 = (if cursor m \<ge> int (length cs) - 1 \<and> cursor m > 0
      then cursor m - 1 else cursor m)"
    by (simp add: m2_def)
  moreover have "currentDir m2 = Some cur" "rootDir m2 = rootDir m" "sortBy m2 = sortBy m"
    using cur(1) by (simp_all add: m2_def)
  ultimately show ?thesis
    using res cur h3(2,6) len3
    unfolding m_def[symmetric] s_def[symmetric] h_def[symmetric]
    by (intro exI[of _ cur] exI[of _ m2] exI[of _ "s\<lparr>heap := h3\<rparr>"]) (simp add: cs_def h2_def)
qed

lemma world_ok_same:
  assumes "world_ok w" "rootDir m = rootDir (mdl w)" "currentDir m = currentDir (mdl w)"
    "cursor m = cursor (mdl w)" "scanning m = scanning (mdl w)" "deleting m = deleting (mdl w)"
  shows "world_ok \<lparr>mdl = m, mach = mach w, inflight = inflight w\<rparr>"
  using assms unfolding world_ok_def cursor_ok_def by (auto split: option.splits)

lemma world_ok_failed:
  assumes "world_ok w" "rootDir m = rootDir (mdl w)" "currentDir m = currentDir (mdl w)"
    "cursor m = cursor (mdl w)" "scanning m = scanning (mdl w)" "\<not> deleting m"
  shows "world_ok \<lparr>mdl = m, mach = mach w, inflight = None\<rparr>"
  using assms unfolding world_ok_def cursor_ok_def by (auto split: option.splits)

text \<open>Every event keeps the invariant, and \<open>Update\<close> does not panic on it.\<close>

lemma deliver_ok:
  assumes sc: "sort_contract (sort_Slice L)" and ok: "world_ok w"
    and stack: "length (heap (mach w)) < stack"
  shows "\<exists>w' q. deliver L stack w ev = Inr (w', q) \<and> world_ok w' \<and>
           length (heap (mach w')) = length (heap (mach w))"
proof (cases ev)
  case (Key k)
  show ?thesis
  proof (cases "deleting (mdl w)")
    case True
    have "world_ok \<lparr>mdl = mdl w, mach = mach w, inflight = inflight w\<rparr>"
      by (rule world_ok_same[OF ok]) simp_all
    then show ?thesis
      using Key True by (auto simp: deliver_def keyPressed_def)
  next
    case False
    have ns: "\<not> scanning (mdl w)" using ok by (simp add: world_ok_def)
    from keyAction_ok[OF sc ok False stack, of "switch_label k"]
    obtain m' s' cmds where r: "keyAction L stack (mdl w) (mach w) (switch_label k) = Inr (m', s', cmds)"
        "world_ok \<lparr>mdl = m', mach = s', inflight = started cmds (inflight w)\<rparr>"
        "length (heap s') = length (heap (mach w))"
      by blast
    then show ?thesis
      using Key False ns by (auto simp: deliver_def keyPressed_def)
  qed
next
  case (Resize x y)
  have "world_ok \<lparr>mdl = (mdl w)\<lparr>width := x, height := y\<rparr>, mach = mach w, inflight = inflight w\<rparr>"
    by (rule world_ok_same[OF ok]) simp_all
  then show ?thesis using Resize by (auto simp: deliver_def)
next
  case Tick
  have ns: "\<not> scanning (mdl w)" using ok by (simp add: world_ok_def)
  have "world_ok \<lparr>mdl = mdl w, mach = mach w, inflight = inflight w\<rparr>"
    by (rule world_ok_same[OF ok]) simp_all
  then show ?thesis using Tick ns by (auto simp: deliver_def)
next
  case Spin
  have "world_ok \<lparr>mdl = mdl w, mach = mach w, inflight = inflight w\<rparr>"
    by (rule world_ok_same[OF ok]) simp_all
  moreover have "world_ok \<lparr>mdl = (mdl w)\<lparr>deleteSpinner := (deleteSpinner (mdl w) + 1) mod 10\<rparr>,
      mach = mach w, inflight = inflight w\<rparr>"
    by (rule world_ok_same[OF ok]) simp_all
  ultimately show ?thesis using Spin by (auto simp: deliver_def)
next
  case (DeleteDone err)
  show ?thesis
  proof (cases "inflight w")
    case None
    then show ?thesis using DeleteDone ok by (auto simp: deliver_def)
  next
    case (Some t)
    show ?thesis
    proof (cases err)
      case (Some e)
      have "world_ok \<lparr>mdl = (mdl w)\<lparr>deleting := False, statusMsg := ''Error deleting: '' @ e\<rparr>,
          mach = mach w, inflight = None\<rparr>"
        by (rule world_ok_failed[OF ok]) simp_all
      then show ?thesis
        using DeleteDone \<open>inflight w = Some t\<close> Some
        by (auto simp: deliver_def deleteComplete_failure)
    next
      case None
      from deleteComplete_success[OF ok \<open>inflight w = Some t\<close> stack,
          of "filepath_Base L (Path (heap (mach w) ! t))"]
      obtain m' s' where r: "deleteComplete stack (mdl w) (mach w) t None
            (filepath_Base L (Path (heap (mach w) ! t))) = Inr (m', s', [])"
          "world_ok \<lparr>mdl = m', mach = s', inflight = None\<rparr>"
          "length (heap s') = length (heap (mach w))"
        by blast
      then show ?thesis
        using DeleteDone \<open>inflight w = Some t\<close> None by (auto simp: deliver_def)
    qed
  qed
qed

lemma run_ok:
  assumes sc: "sort_contract (sort_Slice L)"
  shows "world_ok w \<Longrightarrow> length (heap (mach w)) < stack \<Longrightarrow>
         \<exists>w'. run L stack w evs = Inr w' \<and> world_ok w' \<and>
              length (heap (mach w')) = length (heap (mach w))"
proof (induction evs arbitrary: w)
  case Nil
  then show ?case by simp
next
  case (Cons ev evs)
  from deliver_ok[OF sc Cons.prems, of ev]
  obtain w1 q where w1: "deliver L stack w ev = Inr (w1, q)" "world_ok w1"
      "length (heap (mach w1)) = length (heap (mach w))"
    by blast
  show ?case
  proof (cases q)
    case True
    then show ?thesis using w1 by simp
  next
    case False
    have "length (heap (mach w1)) < stack" using w1(3) Cons.prems(2) by simp
    from Cons.IH[OF w1(2) this] show ?thesis using w1 False by auto
  qed
qed

lemma scanned_heap:
  "scanned L stack path fs = Inr w \<Longrightarrow>
   heap (mach w) = heap (snd (scanDirectory L path fs empty_machine))"
  by (auto simp: scanned_def scanDirectory_def split: prod.splits sum.splits)

text \<open>
  Every session runs to its end without a panic, in a world that satisfies the
  invariant, when the stack has room for as many calls as the scan allocated nodes.
\<close>

lemma session_ok:
  assumes sc: "sort_contract (sort_Slice L)"
    and stack: "length (heap (snd (scanDirectory L path fs empty_machine))) < stack"
  shows "\<exists>w. session L stack path fs evs = Inr w \<and> world_ok w"
proof -
  obtain w0 where w0: "scanned L stack path fs = Inr w0" "world_ok w0"
    using scanned_ok[OF sc] by blast
  have "length (heap (mach w0)) < stack" using scanned_heap[OF w0(1)] stack by simp
  from run_ok[OF sc w0(2) this, of evs] show ?thesis
    using w0(1) by (auto simp: session_def)
qed

subsection \<open>The sample library\<close>

lemma mset_insert_by: "mset (insert_by lt x xs) = add_mset x (mset xs)"
  by (induction xs) auto

lemma mset_insertion_sort: "mset (insertion_sort lt xs) = mset xs"
  unfolding insertion_sort_def by (induction xs) (auto simp: mset_insert_by)

lemma set_insert_by: "set (insert_by lt x xs) = insert x (set xs)"
  using mset_insert_by[of lt x xs] by (metis set_mset_add_mset_insert set_mset_mset)

lemma sorted_insert_by:
  assumes "strict_weak_order lt" "sorted_wrt (\<lambda>x y. \<not> lt y x) xs"
  shows "sorted_wrt (\<lambda>x y. \<not> lt y x) (insert_by lt x xs)"
  using assms(2)
proof (induction xs)
  case Nil
  then show ?case by simp
next
  case (Cons y ys)
  have irr: "\<not> lt a a" for a using assms(1) by (simp add: strict_weak_order_def)
  have tr: "lt a b \<Longrightarrow> lt b c \<Longrightarrow> lt a c" for a b c
    using assms(1) unfolding strict_weak_order_def by blast
  have ntr: "\<not> lt a b \<Longrightarrow> \<not> lt b c \<Longrightarrow> \<not> lt a c" for a b c
    using assms(1) unfolding strict_weak_order_def by blast
  show ?case
  proof (cases "lt x y")
    case True
    have "\<not> lt y x" using True tr irr by blast
    moreover have "\<not> lt z x" if "z \<in> set ys" for z
    proof -
      have "\<not> lt z y" using Cons.prems that by simp
      then show ?thesis using \<open>\<not> lt y x\<close> ntr by blast
    qed
    ultimately show ?thesis using True Cons.prems by simp
  next
    case False
    then show ?thesis using Cons by (auto simp: set_insert_by)
  qed
qed

lemma sort_contract_sample: "sort_contract (sort_Slice sample_lib)"
proof -
  have "sorted_wrt (\<lambda>x y. \<not> lt y x) (insertion_sort lt xs)" if "strict_weak_order lt"
    for lt :: "addr \<Rightarrow> addr \<Rightarrow> bool" and xs
    unfolding insertion_sort_def by (induction xs) (simp_all add: sorted_insert_by[OF that])
  then show ?thesis
    by (simp add: sort_contract_def sample_lib_def mset_insertion_sort)
qed

subsection \<open>Evaluating the scanner on an explicit state\<close>

lemma new_DirInfo_eval:
  "new_DirInfo path parent isDir
     \<lparr>heap = h, currentRoot = r, progressChan = c, filesCount = f, dirsCount = d\<rparr> =
   (length h,
    \<lparr>heap = h @ [\<lparr>Path = path, Size = 0, Children = [], Parent = parent, IsDir = isDir, Error = None\<rparr>],
     currentRoot = (if parent = None \<and> r = None then Some (length h) else r),
     progressChan = c, filesCount = f, dirsCount = d\<rparr>)"
  by (simp add: new_DirInfo_def Let_def)

lemma calc_file_eval:
  "calculateDirSizeWithProgress L path parent (RegularFile sz)
     \<lparr>heap = h, currentRoot = r, progressChan = c, filesCount = f, dirsCount = d\<rparr> =
   (Inr (length h),
    \<lparr>heap = h @ [\<lparr>Path = path, Size = sz, Children = [], Parent = parent, IsDir = False, Error = None\<rparr>],
     currentRoot = (if parent = None \<and> r = None then Some (length h) else r),
     progressChan = c, filesCount = f + 1, dirsCount = d\<rparr>)"
  by (simp add: new_DirInfo_eval)

lemma calc_unreadable_eval:
  "calculateDirSizeWithProgress L path parent (UnreadableDir err)
     \<lparr>heap = h, currentRoot = r, progressChan = c, filesCount = f, dirsCount = d\<rparr> =
   (Inr (length h),
    \<lparr>heap = h @ [\<lparr>Path = path, Size = 0, Children = [], Parent = parent, IsDir = True, Error = Some err\<rparr>],
     currentRoot = (if parent = None \<and> r = None then Some (length h) else r),
     progressChan = c, filesCount = f, dirsCount = d + 1\<rparr>)"
  by (simp add: new_DirInfo_eval)

lemma calc_dir_eval:
  "calculateDirSizeWithProgress L path parent (Directory entries)
     \<lparr>heap = h, currentRoot = r, progressChan = c, filesCount = f, dirsCount = d\<rparr> =
   (case scanEntries L path (length h) entries 0
      \<lparr>heap = h @ [\<lparr>Path = path, Size = 0, Children = [], Parent = parent, IsDir = True, Error = None\<rparr>],
       currentRoot = (if parent = None \<and> r = None then Some (length h) else r),
       progressChan = c, filesCount = f, dirsCount = d + 1\<rparr> of
      (tot, s2) \<Rightarrow> (Inr (length h), s2\<lparr>heap := finish_dir L (length h) tot (heap s2)\<rparr>))"
  by (simp add: new_DirInfo_eval finish_dir_def Let_def)

lemma attach_child_eval:
  "attach_child dirInfo child tot
     \<lparr>heap = h, currentRoot = r, progressChan = c, filesCount = f, dirsCount = d\<rparr> =
   (let h1 = h[dirInfo := (h ! dirInfo)\<lparr>Children := Children (h ! dirInfo) @ [child]\<rparr>];
        tot1 = tot + Size (h1 ! child)
    in (tot1,
        if r = Some dirInfo
        then \<lparr>heap = h1[dirInfo := (h1 ! dirInfo)\<lparr>Size := tot1\<rparr>], currentRoot = r,
              progressChan = send_progress
                \<lparr>msg_root = dirInfo, msg_filesScanned = f, msg_dirsScanned = d, msg_totalSize = tot1\<rparr> c,
              filesCount = f, dirsCount = d\<rparr>
        else \<lparr>heap = h1, currentRoot = r, progressChan = c, filesCount = f, dirsCount = d\<rparr>))"
  by (simp add: attach_child_def Let_def)

lemmas scan_eval =
  calc_file_eval calc_unreadable_eval calc_dir_eval attach_child_eval finish_dir_def
  scanned_def scanDirectory_def scanDirectory_final_def
  empty_machine_def sample_lib_def insertion_sort_def bySizeDesc_def send_progress_def
  initialModel_def demo_fs_def Let_def

lemma demo_scanned:
  "scanned sample_lib stack ''.'' demo_fs =
     Inr \<lparr>mdl = initialModel\<lparr>scanning := False, rootDir := Some 0, currentDir := Some 0\<rparr>,
          mach = \<lparr>heap =
             [\<lparr>Path = ''.'', Size = 2000, Children = [2, 1], Parent = None, IsDir = True, Error = None\<rparr>,
              \<lparr>Path = ''./a.txt'', Size = 500, Children = [], Parent = Some 0, IsDir = False, Error = None\<rparr>,
              \<lparr>Path = ''./sub'', Size = 1500, Children = [3], Parent = Some 0, IsDir = True, Error = None\<rparr>,
              \<lparr>Path = ''./sub/b.txt'', Size = 1500, Children = [], Parent = Some 2, IsDir = False, Error = None\<rparr>],
             currentRoot = Some 0,
             progressChan =
               [\<lparr>msg_root = 0, msg_filesScanned = 1, msg_dirsScanned = 1, msg_totalSize = 500\<rparr>,
                \<lparr>msg_root = 0, msg_filesScanned = 2, msg_dirsScanned = 2, msg_totalSize = 2000\<rparr>,
                \<lparr>msg_root = 0, msg_filesScanned = 2, msg_dirsScanned = 2, msg_totalSize = 2000\<rparr>],
             filesCount = 2, dirsCount = 2\<rparr>,
          inflight = None\<rparr>"
  by (simp add: scan_eval eval_nat_numeral del: calculateDirSizeWithProgress.simps)

lemma sample_lib_sel:
  "sort_Slice sample_lib = insertion_sort"
  "filepath_Join sample_lib = (\<lambda>p n. p @ ''/'' @ n)"
  "filepath_Base sample_lib = lastElem"
  "strings_ToLower sample_lib = map asciiLower"
  by (simp_all add: sample_lib_def)

lemmas run_eval =
  session_def deliver_def keyPressed_def switch_label_def index_at_def deleteComplete_def
  lessFn_def byName_def bySizeDesc_def sample_lib_sel insertion_sort_def lastElem_def
  asciiLower_def initialModel_def Let_def eval_nat_numeral

subsection \<open>The claims about a whole session\<close>

lemma demo_nodes: "length (heap (snd (scanDirectory sample_lib ''.'' demo_fs empty_machine))) = 4"
  by (simp add: scan_eval del: calculateDirSizeWithProgress.simps)

text \<open>
  C1. At the end of the scan and after any events that follow it, deletes included,
  every directory reachable from the root has as its size the sum of the sizes of its
  children (in \<^verbatim>\<open>int64\<close> arithmetic, as the program adds them).
\<close>

theorem directory_size_is_sum_of_children:
  assumes "sort_contract (sort_Slice L)"
    and "length (heap (snd (scanDirectory L path fs empty_machine))) < stack"
  shows "\<exists>w. session L stack path fs evs = Inr w \<and>
           (\<forall>r d. rootDir (mdl w) = Some r \<longrightarrow> in_tree (heap (mach w)) r d \<longrightarrow>
                  IsDir (heap (mach w) ! d) \<longrightarrow>
                  Size (heap (mach w) ! d) =
                    sum_list (map (\<lambda>c. Size (heap (mach w) ! c)) (Children (heap (mach w) ! d))))"
proof -
  obtain w where w: "session L stack path fs evs = Inr w" "world_ok w"
    using session_ok[OF assms] by blast
  have st: "struct_ok (heap (mach w))" and sz: "sizes_ok (heap (mach w))"
    using w(2) by (simp_all add: world_ok_def)
  have "Size (heap (mach w) ! d) =
      sum_list (map (\<lambda>c. Size (heap (mach w) ! c)) (Children (heap (mach w) ! d)))"
    if "rootDir (mdl w) = Some r" "in_tree (heap (mach w)) r d" "IsDir (heap (mach w) ! d)" for r d
  proof -
    have "r < length (heap (mach w))" using w(2) that(1) by (simp add: world_ok_def)
    then have "d < length (heap (mach w))" using in_tree_bound[OF st _ that(2)] by simp
    then show ?thesis using sz that(3) by (simp add: sizes_ok_def size_ok_def child_sum_def)
  qed
  then show ?thesis using w(1) by blast
qed

theorem directory_size_is_sum_of_children_witness:
  "sort_contract (sort_Slice sample_lib) \<and>
   length (heap (snd (scanDirectory sample_lib ''.'' demo_fs empty_machine))) < 10 \<and>
   (\<exists>w. session sample_lib 10 ''.'' demo_fs [Key ''d'', DeleteDone None] = Inr w \<and>
        rootDir (mdl w) = Some 0 \<and> in_tree (heap (mach w)) 0 0 \<and> IsDir (heap (mach w) ! 0) \<and>
        Children (heap (mach w) ! 0) = [1] \<and>
        Size (heap (mach w) ! 0) = 500 \<and>
        sum_list (map (\<lambda>c. Size (heap (mach w) ! c)) (Children (heap (mach w) ! 0))) = 500)"
proof -
  have nodes: "length (heap (snd (scanDirectory sample_lib ''.'' demo_fs empty_machine))) < 10"
    by (simp add: demo_nodes)
  from directory_size_is_sum_of_children[OF sort_contract_sample nodes,
      of "[Key ''d'', DeleteDone None]"]
  obtain w where w: "session sample_lib 10 ''.'' demo_fs [Key ''d'', DeleteDone None] = Inr w"
    and sums: "\<And>r d. rootDir (mdl w) = Some r \<Longrightarrow> in_tree (heap (mach w)) r d \<Longrightarrow>
        IsDir (heap (mach w) ! d) \<Longrightarrow>
        Size (heap (mach w) ! d) =
          sum_list (map (\<lambda>c. Size (heap (mach w) ! c)) (Children (heap (mach w) ! d)))"
    by blast
  have facts: "rootDir (mdl w) = Some 0" "IsDir (heap (mach w) ! 0)"
      "Children (heap (mach w) ! 0) = [1]" "Size (heap (mach w) ! 0) = 500"
    using w by (auto simp: demo_scanned run_eval)
  have tree: "in_tree (heap (mach w)) 0 0" by (rule in_tree.in_tree_root)
  show ?thesis
    using sort_contract_sample nodes w facts tree sums[OF facts(1) tree facts(2)] by auto
qed

text \<open>
  C10. After the scan, whatever events follow, the cursor is never negative and never
  beyond the last child of the current node (it is 0 when there is none), so that the
  lookup \<^verbatim>\<open>Children[m.cursor]\<close> of the enter and delete keys is within bounds; and no event
  makes \<open>Update\<close> panic.
\<close>

theorem cursor_stays_in_bounds:
  assumes "sort_contract (sort_Slice L)"
    and "length (heap (snd (scanDirectory L path fs empty_machine))) < stack"
  shows "\<exists>w. session L stack path fs evs = Inr w \<and> 0 \<le> cursor (mdl w) \<and>
           (case currentDir (mdl w) of
              None \<Rightarrow> cursor (mdl w) = 0
            | Some cur \<Rightarrow>
                cursor (mdl w) \<le> max 0 (int (length (Children (heap (mach w) ! cur))) - 1) \<and>
                (Children (heap (mach w) ! cur) \<noteq> [] \<longrightarrow>
                   index_at (Children (heap (mach w) ! cur)) (cursor (mdl w)) =
                     Inr (Children (heap (mach w) ! cur) ! nat (cursor (mdl w)))))"
proof -
  obtain w where w: "session L stack path fs evs = Inr w" "world_ok w"
    using session_ok[OF assms] by blast
  have co: "cursor_ok (mdl w) (heap (mach w))" using w(2) by (simp add: world_ok_def)
  show ?thesis
  proof (cases "currentDir (mdl w)")
    case None
    then show ?thesis using w(1) co by (auto simp: cursor_ok_def)
  next
    case (Some cur)
    have b: "0 \<le> cursor (mdl w)"
        "cursor (mdl w) \<le> max 0 (int (length (Children (heap (mach w) ! cur))) - 1)"
      using co Some by (simp_all add: cursor_ok_def)
    then show ?thesis using w(1) Some index_at_ok[OF b] by auto
  qed
qed

theorem cursor_stays_in_bounds_witness:
  "sort_contract (sort_Slice sample_lib) \<and>
   length (heap (snd (scanDirectory sample_lib ''.'' demo_fs empty_machine))) < 10 \<and>
   (\<exists>w. session sample_lib 10 ''.'' demo_fs
          [Key ''down'', Key ''down'', Key ''d'', DeleteDone None, Key ''enter''] = Inr w \<and>
        currentDir (mdl w) = Some 2 \<and> Children (heap (mach w) ! 0) = [2] \<and>
        Children (heap (mach w) ! 2) = [3] \<and> cursor (mdl w) = 0 \<and>
        index_at (Children (heap (mach w) ! 2)) (cursor (mdl w)) = Inr 3)"
proof -
  have nodes: "length (heap (snd (scanDirectory sample_lib ''.'' demo_fs empty_machine))) < 10"
    by (simp add: demo_nodes)
  from cursor_stays_in_bounds[OF sort_contract_sample nodes,
      of "[Key ''down'', Key ''down'', Key ''d'', DeleteDone None, Key ''enter'']"]
  obtain w where w: "session sample_lib 10 ''.'' demo_fs
      [Key ''down'', Key ''down'', Key ''d'', DeleteDone None, Key ''enter''] = Inr w"
    by blast
  have "currentDir (mdl w) = Some 2" "Children (heap (mach w) ! 0) = [2]"
      "Children (heap (mach w) ! 2) = [3]" "cursor (mdl w) = 0"
      "index_at (Children (heap (mach w) ! 2)) (cursor (mdl w)) = Inr 3"
    using w by (auto simp: demo_scanned run_eval)
  then show ?thesis using sort_contract_sample nodes w by auto
qed

lemma session_world:
  assumes sc: "sort_contract (sort_Slice L)"
    and stack: "length (heap (snd (scanDirectory L path fs empty_machine))) < stack"
    and reach: "session L stack path fs evs = Inr w"
  shows "world_ok w" and "length (heap (mach w)) < stack"
proof -
  obtain w0 where w0: "scanned L stack path fs = Inr w0" "world_ok w0"
    using scanned_ok[OF sc] by blast
  have len0: "length (heap (mach w0)) < stack" using scanned_heap[OF w0(1)] stack by simp
  from run_ok[OF sc w0(2) len0, of evs]
  obtain w' where "run L stack w0 evs = Inr w'" "world_ok w'"
      "length (heap (mach w')) = length (heap (mach w0))"
    by blast
  moreover have "session L stack path fs evs = run L stack w0 evs"
    using w0(1) by (simp add: session_def)
  ultimately show "world_ok w" and "length (heap (mach w)) < stack"
    using reach len0 by simp_all
qed

subsection \<open>Deleting\<close>

text \<open>
  C3. In a session where the removal of a node \<open>t\<close> is under way, \<open>t\<close> is a child of
  the current node. If the removal succeeds, \<open>Update\<close> takes \<open>t\<close>, found by its
  address, out of the children of the current node, where it stood once, and leaves
  the children of every other node alone; the cursor ends within the children that are
  left; the size of the current node and of every node above it, up to the root, drops
  by the size \<open>t\<close> had, and no other size changes. If the removal fails, \<open>Update\<close>
  only resets the flag and sets the status message: the heap is as it was. In both cases
  it returns without a panic and without \<^verbatim>\<open>tea.Quit\<close>.
\<close>

theorem delete_contract:
  assumes "sort_contract (sort_Slice L)"
    and "length (heap (snd (scanDirectory L path fs empty_machine))) < stack"
    and "session L stack path fs evs = Inr w"
    and "inflight w = Some t"
  shows "\<exists>cur r w1.
           currentDir (mdl w) = Some cur \<and> rootDir (mdl w) = Some r \<and>
           in_tree (heap (mach w)) r cur \<and>
           t \<in> set (Children (heap (mach w) ! cur)) \<and> distinct (Children (heap (mach w) ! cur)) \<and>
           deliver L stack w (DeleteDone None) = Inr (w1, False) \<and>
           length (heap (mach w1)) = length (heap (mach w)) \<and>
           Children (heap (mach w1) ! cur) = remove1 t (Children (heap (mach w) ! cur)) \<and>
           t \<notin> set (Children (heap (mach w1) ! cur)) \<and>
           (\<forall>b < length (heap (mach w)). b \<noteq> cur \<longrightarrow>
              Children (heap (mach w1) ! b) = Children (heap (mach w) ! b)) \<and>
           currentDir (mdl w1) = Some cur \<and>
           cursor (mdl w1) =
             (if cursor (mdl w) \<ge> int (length (Children (heap (mach w1) ! cur))) \<and> cursor (mdl w) > 0
              then cursor (mdl w) - 1 else cursor (mdl w)) \<and>
           0 \<le> cursor (mdl w1) \<and>
           cursor (mdl w1) \<le> max 0 (int (length (Children (heap (mach w1) ! cur))) - 1) \<and>
           (\<forall>b < length (heap (mach w)).
              Size (heap (mach w1) ! b) =
                (if in_tree (heap (mach w)) b cur
                 then Size (heap (mach w) ! b) - Size (heap (mach w) ! t)
                 else Size (heap (mach w) ! b))) \<and>
           (\<forall>e. deliver L stack w (DeleteDone (Some e)) =
              Inr (\<lparr>mdl = (mdl w)\<lparr>deleting := False, statusMsg := ''Error deleting: '' @ e\<rparr>,
                    mach = mach w, inflight = None\<rparr>, False))"
proof -
  note ok = session_world[OF assms(1,2,3)]
  define h where "h = heap (mach w)"
  define fname where "fname = filepath_Base L (Path (h ! t))"
  from deleteComplete_success[OF ok(1) assms(4) ok(2), of fname]
  obtain cur m' s' where d: "currentDir (mdl w) = Some cur" "t \<in> set (Children (h ! cur))"
      "deleteComplete stack (mdl w) (mach w) t None fname = Inr (m', s', [])"
      "world_ok \<lparr>mdl = m', mach = s', inflight = None\<rparr>"
      "length (heap s') = length h"
      "currentDir m' = Some cur"
      "cursor m' = (if cursor (mdl w) \<ge> int (length (Children (h ! cur))) - 1 \<and> cursor (mdl w) > 0
                    then cursor (mdl w) - 1 else cursor (mdl w))"
      "same_links (h[cur := (h ! cur)\<lparr>Children := remove1 t (Children (h ! cur))\<rparr>]) (heap s')"
      "\<forall>b < length h. Size (heap s' ! b) =
         (if in_tree h b cur then Size (h ! b) - Size (h ! t) else Size (h ! b))"
    unfolding h_def by blast
  obtain r where r: "rootDir (mdl w) = Some r" "in_tree h r cur" "cur < length h" "node_ok h cur"
    using world_ok_cur[OF ok(1) d(1)] unfolding h_def by blast
  have dist: "distinct (Children (h ! cur))" using r(4) by (simp add: node_ok_def)
  have kids: "Children (heap s' ! b) =
      (if b = cur then remove1 t (Children (h ! cur)) else Children (h ! b))" if "b < length h" for b
    using d(8) that by (simp add: same_links_def nth_list_update)
  have gone: "t \<notin> set (remove1 t (Children (h ! cur)))" using dist by simp
  have len': "int (length (remove1 t (Children (h ! cur)))) = int (length (Children (h ! cur))) - 1"
  proof -
    have "length (remove1 t (Children (h ! cur))) = length (Children (h ! cur)) - 1"
      using d(2) by (simp add: length_remove1)
    moreover have "0 < length (Children (h ! cur))" using d(2) by auto
    ultimately show ?thesis by linarith
  qed
  have co: "cursor_ok m' (heap s')" using d(4) by (simp add: world_ok_def)
  have success: "deliver L stack w (DeleteDone None) =
      Inr (\<lparr>mdl = m', mach = s', inflight = None\<rparr>, False)"
    using assms(4) d(3) by (simp add: deliver_def fname_def h_def)
  have failed: "deliver L stack w (DeleteDone (Some e)) =
      Inr (\<lparr>mdl = (mdl w)\<lparr>deleting := False, statusMsg := ''Error deleting: '' @ e\<rparr>,
            mach = mach w, inflight = None\<rparr>, False)" for e
    using assms(4) by (simp add: deliver_def deleteComplete_failure)
  show ?thesis
    unfolding h_def[symmetric]
    apply (rule exI[of _ cur], rule exI[of _ r])
    apply (rule exI[of _ "\<lparr>mdl = m', mach = s', inflight = None\<rparr>"])
    using d(1,2,5,6,7,9) r(1,2,3) dist success failed gone co len'
    by (simp add: kids cursor_ok_def)
qed

theorem delete_contract_witness:
  "sort_contract (sort_Slice sample_lib) \<and>
   length (heap (snd (scanDirectory sample_lib ''.'' demo_fs empty_machine))) < 10 \<and>
   (\<exists>w. session sample_lib 10 ''.'' demo_fs [Key ''d''] = Inr w \<and> inflight w = Some 2 \<and>
        Children (heap (mach w) ! 0) = [2, 1] \<and> Size (heap (mach w) ! 0) = 2000 \<and>
        Size (heap (mach w) ! 2) = 1500 \<and>
        (\<exists>w1. deliver sample_lib 10 w (DeleteDone None) = Inr (w1, False) \<and>
              Children (heap (mach w1) ! 0) = remove1 2 (Children (heap (mach w) ! 0)) \<and>
              Children (heap (mach w1) ! 0) = [1] \<and>
              Size (heap (mach w1) ! 0) = Size (heap (mach w) ! 0) - Size (heap (mach w) ! 2) \<and>
              Size (heap (mach w1) ! 0) = 500 \<and> cursor (mdl w1) = 0) \<and>
        (\<exists>w2. deliver sample_lib 10 w (DeleteDone (Some ''denied'')) = Inr (w2, False) \<and>
              mach w2 = mach w))"
proof -
  have nodes: "length (heap (snd (scanDirectory sample_lib ''.'' demo_fs empty_machine))) < 10"
    by (simp add: demo_nodes)
  obtain w where w: "session sample_lib 10 ''.'' demo_fs [Key ''d''] = Inr w"
    using session_ok[OF sort_contract_sample nodes] by blast
  have facts: "inflight w = Some 2" "Children (heap (mach w) ! 0) = [2, 1]"
      "Size (heap (mach w) ! 0) = 2000" "Size (heap (mach w) ! 2) = 1500"
      "cursor (mdl w) = 0" "length (heap (mach w)) = 4" "rootDir (mdl w) = Some 0"
    using w by (auto simp: demo_scanned run_eval)
  from delete_contract[OF sort_contract_sample nodes w facts(1)]
  obtain cur r w1 where c: "currentDir (mdl w) = Some cur" "rootDir (mdl w) = Some r"
      "in_tree (heap (mach w)) r cur"
      "deliver sample_lib 10 w (DeleteDone None) = Inr (w1, False)"
      "Children (heap (mach w1) ! cur) = remove1 2 (Children (heap (mach w) ! cur))"
      "cursor (mdl w1) =
         (if cursor (mdl w) \<ge> int (length (Children (heap (mach w1) ! cur))) \<and> cursor (mdl w) > 0
          then cursor (mdl w) - 1 else cursor (mdl w))"
      "\<forall>b < length (heap (mach w)).
         Size (heap (mach w1) ! b) =
           (if in_tree (heap (mach w)) b cur
            then Size (heap (mach w) ! b) - Size (heap (mach w) ! 2)
            else Size (heap (mach w) ! b))"
      "\<forall>e. deliver sample_lib 10 w (DeleteDone (Some e)) =
         Inr (\<lparr>mdl = (mdl w)\<lparr>deleting := False, statusMsg := ''Error deleting: '' @ e\<rparr>,
               mach = mach w, inflight = None\<rparr>, False)"
    by blast
  have cur: "cur = 0" "r = 0" using w c(1,2) by (auto simp: demo_scanned run_eval)
  have "Size (heap (mach w1) ! 0) = Size (heap (mach w) ! 0) - Size (heap (mach w) ! 2)"
    using c(3,7) cur facts(6) by simp
  moreover have "Children (heap (mach w1) ! 0) = remove1 2 (Children (heap (mach w) ! 0))"
    using c(5) cur by simp
  moreover have "cursor (mdl w1) = 0" using c(6) facts(5) by simp
  moreover have "\<exists>w2. deliver sample_lib 10 w (DeleteDone (Some ''denied'')) = Inr (w2, False) \<and>
      mach w2 = mach w"
    using c(8) by simp
  ultimately show ?thesis
    using sort_contract_sample nodes w facts c(4) by auto
qed

subsection \<open>Navigation\<close>

lemma world_unchanged: "\<lparr>mdl = mdl w, mach = mach w, inflight = inflight w\<rparr> = w"
  by simp

text \<open>
  C8. In any session after the scan: when the current node is the root, the exit key
  changes nothing; and when the cursor is on a directory that has children, the enter
  key makes that directory the current node with the cursor at 0, and the exit key that
  follows restores the world as it was, the current node and the cursor included.
\<close>

theorem enter_then_exit_restores:
  assumes "sort_contract (sort_Slice L)"
    and "length (heap (snd (scanDirectory L path fs empty_machine))) < stack"
    and "session L stack path fs evs = Inr w"
  shows "(currentDir (mdl w) = rootDir (mdl w) \<longrightarrow>
            deliver L stack w (Key ''left'') = Inr (w, False)) \<and>
         (\<forall>cur sel.
            \<not> deleting (mdl w) \<and> currentDir (mdl w) = Some cur \<and>
            Children (heap (mach w) ! cur) \<noteq> [] \<and>
            sel = Children (heap (mach w) ! cur) ! nat (cursor (mdl w)) \<and>
            IsDir (heap (mach w) ! sel) \<and> Children (heap (mach w) ! sel) \<noteq> [] \<longrightarrow>
            (\<exists>w1. deliver L stack w (Key ''enter'') = Inr (w1, False) \<and>
                  currentDir (mdl w1) = Some sel \<and> cursor (mdl w1) = 0 \<and>
                  deliver L stack w1 (Key ''left'') = Inr (w, False)))"
proof -
  note ok = session_world[OF assms]
  let ?m = "mdl w" and ?s = "mach w" and ?h = "heap (mach w)"
  have ns: "\<not> scanning ?m" and co: "cursor_ok ?m ?h"
    using ok(1) by (simp_all add: world_ok_def)
  have at_root: "deliver L stack w (Key ''left'') = Inr (w, False)"
    if "currentDir ?m = rootDir ?m"
  proof (cases "deleting ?m")
    case True
    then show ?thesis by (simp add: deliver_def keyPressed_def)
  next
    case False
    have "keyAction L stack ?m ?s CaseLeft = Inr (?m, ?s, [])"
    proof (cases "rootDir ?m")
      case None
      then show ?thesis using that by simp
    next
      case (Some r)
      then have "Parent (?h ! r) = None" using ok(1) by (simp add: world_ok_def)
      then show ?thesis using that Some by simp
    qed
    then show ?thesis
      using False ns by (simp add: deliver_def keyPressed_def switch_label_def)
  qed
  have round: "\<exists>w1. deliver L stack w (Key ''enter'') = Inr (w1, False) \<and>
      currentDir (mdl w1) = Some sel \<and> cursor (mdl w1) = 0 \<and>
      deliver L stack w1 (Key ''left'') = Inr (w, False)"
    if nd: "\<not> deleting ?m" and cur: "currentDir ?m = Some cur" and ne: "Children (?h ! cur) \<noteq> []"
      and sel: "sel = Children (?h ! cur) ! nat (cursor ?m)"
      and dir: "IsDir (?h ! sel)" "Children (?h ! sel) \<noteq> []" for cur sel
  proof -
    have fl: "inflight w = None" using ok(1) nd by (simp add: world_ok_def)
    have b: "0 \<le> cursor ?m" "cursor ?m \<le> max 0 (int (length (Children (?h ! cur))) - 1)"
      using co cur by (simp_all add: cursor_ok_def)
    have ix: "index_at (Children (?h ! cur)) (cursor ?m) = Inr sel"
        "nat (cursor ?m) < length (Children (?h ! cur))"
      using index_at_ok[OF b ne] sel by simp_all
    have r: "node_ok ?h cur"
      using world_ok_cur[OF ok(1), of cur] cur by auto
    have sel_in: "sel \<in> set (Children (?h ! cur))" using ix(2) sel by simp
    have par: "Parent (?h ! sel) = Some cur" using r sel_in by (auto simp: node_ok_def)
    have "distinct (Children (?h ! cur))" using r by (simp add: node_ok_def)
    then have found: "indexOf sel (Children (?h ! cur)) = Some (nat (cursor ?m))"
      unfolding sel by (rule indexOf_nth[OF _ ix(2)])
    define w1 where "w1 = \<lparr>mdl = ?m\<lparr>currentDir := Some sel, cursor := 0\<rparr>, mach = ?s, inflight = None\<rparr>"
    have enter: "deliver L stack w (Key ''enter'') = Inr (w1, False)"
      using nd ns cur ne ix(1) dir fl
      by (simp add: deliver_def keyPressed_def switch_label_def w1_def)
    have same: "?m\<lparr>currentDir := Some sel, cursor := 0, cursor := cursor ?m, currentDir := Some cur\<rparr> = ?m"
      using cur by simp
    have "\<lparr>mdl = ?m, mach = ?s, inflight = None\<rparr> = w"
      using fl by simp
    then have left: "deliver L stack w1 (Key ''left'') = Inr (w, False)"
      using nd ns par found b(1) same
      by (simp add: deliver_def keyPressed_def switch_label_def w1_def)
    show ?thesis using enter left by (auto simp: w1_def)
  qed
  show ?thesis
    using at_root round by blast
qed

theorem enter_then_exit_restores_witness:
  "sort_contract (sort_Slice sample_lib) \<and>
   length (heap (snd (scanDirectory sample_lib ''.'' demo_fs empty_machine))) < 10 \<and>
   (\<exists>w. session sample_lib 10 ''.'' demo_fs [Key ''s'', Key ''down''] = Inr w \<and>
        currentDir (mdl w) = rootDir (mdl w) \<and>
        deliver sample_lib 10 w (Key ''left'') = Inr (w, False) \<and>
        \<not> deleting (mdl w) \<and> currentDir (mdl w) = Some 0 \<and> cursor (mdl w) = 1 \<and>
        Children (heap (mach w) ! 0) = [1, 2] \<and> IsDir (heap (mach w) ! 2) \<and>
        Children (heap (mach w) ! 2) = [3] \<and>
        (\<exists>w1. deliver sample_lib 10 w (Key ''enter'') = Inr (w1, False) \<and>
              currentDir (mdl w1) = Some 2 \<and> cursor (mdl w1) = 0 \<and>
              deliver sample_lib 10 w1 (Key ''left'') = Inr (w, False)))"
proof -
  have nodes: "length (heap (snd (scanDirectory sample_lib ''.'' demo_fs empty_machine))) < 10"
    by (simp add: demo_nodes)
  obtain w where w: "session sample_lib 10 ''.'' demo_fs [Key ''s'', Key ''down''] = Inr w"
    using session_ok[OF sort_contract_sample nodes] by blast
  have facts: "currentDir (mdl w) = rootDir (mdl w)" "\<not> deleting (mdl w)"
      "currentDir (mdl w) = Some 0" "cursor (mdl w) = 1" "Children (heap (mach w) ! 0) = [1, 2]"
      "IsDir (heap (mach w) ! 2)" "Children (heap (mach w) ! 2) = [3]"
    using w by (auto simp: demo_scanned run_eval)
  note both = enter_then_exit_restores[OF sort_contract_sample nodes w]
  have root: "deliver sample_lib 10 w (Key ''left'') = Inr (w, False)"
    using both facts(1) by blast
  have "\<exists>w1. deliver sample_lib 10 w (Key ''enter'') = Inr (w1, False) \<and>
      currentDir (mdl w1) = Some 2 \<and> cursor (mdl w1) = 0 \<and>
      deliver sample_lib 10 w1 (Key ''left'') = Inr (w, False)"
    using conjunct2[OF both, rule_format, of 0 2] facts by simp
  then show ?thesis
    using sort_contract_sample nodes w facts root by auto
qed

subsection \<open>Sorting\<close>

lemma toggle_step:
  assumes sc: "sort_contract (sort_Slice L)" and ok: "world_ok w" and nd: "\<not> deleting (mdl w)"
    and stack: "length (heap (mach w)) < stack"
    and sb: "sb = (if sortBy (mdl w) = ''size'' then ''name'' else ''size'')"
  shows "\<exists>w1. deliver L stack w (Key ''s'') = Inr (w1, False) \<and> world_ok w1 \<and>
           \<not> deleting (mdl w1) \<and> sortBy (mdl w1) = sb \<and> cursor (mdl w1) = 0 \<and>
           rootDir (mdl w1) = rootDir (mdl w) \<and> currentDir (mdl w1) = currentDir (mdl w) \<and>
           same_shape (heap (mach w)) (heap (mach w1)) \<and>
           (\<forall>r d. rootDir (mdl w1) = Some r \<longrightarrow> in_tree (heap (mach w1)) r d \<longrightarrow>
                  children_sorted L sb (heap (mach w1)) d)"
proof -
  let ?m = "mdl w" and ?s = "mach w" and ?h = "heap (mach w)"
  have fl: "inflight w = None" using ok nd by (simp add: world_ok_def)
  have st: "struct_ok ?h" and ns: "\<not> scanning ?m"
    using ok by (simp_all add: world_ok_def)
  define m1 where "m1 = (if sortBy ?m = ''size'' then ?m\<lparr>sortBy := ''name''\<rparr> else ?m\<lparr>sortBy := ''size''\<rparr>)"
  have m1: "rootDir m1 = rootDir ?m" "currentDir m1 = currentDir ?m" "scanning m1 = scanning ?m"
      "deleting m1 = deleting ?m" "sortBy m1 = sb"
    by (simp_all add: m1_def sb)
  from keyAction_ok[OF sc ok nd stack, of CaseSort]
  obtain m' s' cmds where r: "keyAction L stack ?m ?s CaseSort = Inr (m', s', cmds)"
      "world_ok \<lparr>mdl = m', mach = s', inflight = started cmds (inflight w)\<rparr>"
    by blast
  obtain n where n: "stack = Suc n" using stack by (cases stack) auto
  have shape: "sortChildren L stack sb ?h (rootDir ?m) = Inr h' \<Longrightarrow> same_shape ?h h' \<and>
      (\<forall>r d. rootDir ?m = Some r \<longrightarrow> in_tree h' r d \<longrightarrow> children_sorted L sb h' d)" for h'
  proof (cases "rootDir ?m")
    case None
    assume "sortChildren L stack sb ?h (rootDir ?m) = Inr h'"
    then show ?thesis using None n by (simp add: same_shape_refl)
  next
    case (Some r)
    assume res: "sortChildren L stack sb ?h (rootDir ?m) = Inr h'"
    have rlen: "r < length ?h" using ok Some by (simp add: world_ok_def)
    have "length ?h \<le> stack + r" using stack by simp
    from sortChildren_ok[OF sc st rlen this, of sb]
    obtain k where k: "sortChildren L stack sb ?h (Some r) = Inr k" "same_shape ?h k"
        "\<forall>b. in_tree ?h r b \<longrightarrow> children_sorted L sb k b"
      by blast
    have eq: "k = h'" using res k(1) Some by simp
    have "children_sorted L sb h' d" if "in_tree h' r d" for d
    proof -
      have "in_tree ?h r d"
        using same_shape_in_tree_iff[OF k(2) st rlen] that eq by simp
      then show ?thesis using k(3) eq by simp
    qed
    then show ?thesis using k(2) eq Some by simp
  qed
  obtain h' where h': "sortChildren L stack sb ?h (rootDir ?m) = Inr h'"
    using r(1) by (auto simp: Let_def m1_def[symmetric] m1 split: sum.splits)
  have res: "m' = m1\<lparr>cursor := 0\<rparr>" "s' = ?s\<lparr>heap := h'\<rparr>" "cmds = []"
    using r(1) h' by (simp_all add: Let_def m1_def[symmetric] m1)
  have "deliver L stack w (Key ''s'') = Inr (\<lparr>mdl = m', mach = s', inflight = None\<rparr>, False)"
    using r(1) nd ns fl res(3) by (simp add: deliver_def keyPressed_def switch_label_def)
  moreover have "world_ok \<lparr>mdl = m', mach = s', inflight = None\<rparr>"
    using r(2) fl res(3) by simp
  ultimately show ?thesis
    using shape[OF h'] res m1 nd by auto
qed

text \<open>
  C7. Pressing the sort key while the order is by size switches to ordering by name:
  the children of every directory of the tree under the root are then in ascending order of
  the lowercased base name of their paths, and the cursor is on the first row. Pressing it once
  more switches back to ordering by size: the children of every directory of the tree are in
  descending order of size, the cursor is on the first row, and the tree holds the same
  nodes, with the same sizes and the same children up to their order, as before the two
  key presses.
\<close>

theorem sort_toggle_round_trip:
  assumes "sort_contract (sort_Slice L)"
    and "length (heap (snd (scanDirectory L path fs empty_machine))) < stack"
    and "session L stack path fs evs = Inr w"
    and "\<not> deleting (mdl w)"
    and "sortBy (mdl w) = ''size''"
  shows "\<exists>w1 w2. deliver L stack w (Key ''s'') = Inr (w1, False) \<and>
           sortBy (mdl w1) = ''name'' \<and> cursor (mdl w1) = 0 \<and>
           (\<forall>r d. rootDir (mdl w1) = Some r \<longrightarrow> in_tree (heap (mach w1)) r d \<longrightarrow>
              sorted_wrt (\<lambda>x y. strings_ToLower L (filepath_Base L (Path (heap (mach w1) ! x)))
                              \<le> strings_ToLower L (filepath_Base L (Path (heap (mach w1) ! y))))
                (Children (heap (mach w1) ! d))) \<and>
           deliver L stack w1 (Key ''s'') = Inr (w2, False) \<and>
           sortBy (mdl w2) = ''size'' \<and> cursor (mdl w2) = 0 \<and>
           (\<forall>r d. rootDir (mdl w2) = Some r \<longrightarrow> in_tree (heap (mach w2)) r d \<longrightarrow>
              sorted_wrt (\<lambda>x y. sint (Size (heap (mach w2) ! y)) \<le> sint (Size (heap (mach w2) ! x)))
                (Children (heap (mach w2) ! d))) \<and>
           same_shape (heap (mach w)) (heap (mach w2)) \<and>
           rootDir (mdl w2) = rootDir (mdl w) \<and> currentDir (mdl w2) = currentDir (mdl w)"
proof -
  from session_world[OF assms(1,2,3)]
  have ok: "world_ok w" and len: "length (heap (mach w)) < stack" by simp_all
  from toggle_step[OF assms(1) ok assms(4) len refl]
  obtain w1 where w1: "deliver L stack w (Key ''s'') = Inr (w1, False)" "world_ok w1"
      "\<not> deleting (mdl w1)" "sortBy (mdl w1) = ''name''" "cursor (mdl w1) = 0"
      "rootDir (mdl w1) = rootDir (mdl w)" "currentDir (mdl w1) = currentDir (mdl w)"
      "same_shape (heap (mach w)) (heap (mach w1))"
      "\<forall>r d. rootDir (mdl w1) = Some r \<longrightarrow> in_tree (heap (mach w1)) r d \<longrightarrow>
                  children_sorted L ''name'' (heap (mach w1)) d"
    using assms(5) by auto
  have len1: "length (heap (mach w1)) < stack"
    using w1(8) len by (simp add: same_shape_def)
  from toggle_step[OF assms(1) w1(2) w1(3) len1 refl]
  obtain w2 where w2: "deliver L stack w1 (Key ''s'') = Inr (w2, False)"
      "sortBy (mdl w2) = ''size''" "cursor (mdl w2) = 0"
      "rootDir (mdl w2) = rootDir (mdl w1)" "currentDir (mdl w2) = currentDir (mdl w1)"
      "same_shape (heap (mach w1)) (heap (mach w2))"
      "\<forall>r d. rootDir (mdl w2) = Some r \<longrightarrow> in_tree (heap (mach w2)) r d \<longrightarrow>
                  children_sorted L ''size'' (heap (mach w2)) d"
    using w1(4) by auto
  have byname: "children_sorted L ''name'' h d =
      sorted_wrt (\<lambda>x y. strings_ToLower L (filepath_Base L (Path (h ! x)))
                       \<le> strings_ToLower L (filepath_Base L (Path (h ! y)))) (Children (h ! d))" for h d
    by (simp add: children_sorted_def lessFn_def byName_def not_less)
  have bysize: "children_sorted L ''size'' h d =
      sorted_wrt (\<lambda>x y. sint (Size (h ! y)) \<le> sint (Size (h ! x))) (Children (h ! d))" for h d
    by (simp add: children_sorted_def lessFn_def bySizeDesc_def not_less)
  have shape: "same_shape (heap (mach w)) (heap (mach w2))"
    by (rule same_shape_trans[OF w1(8) w2(6)])
  show ?thesis
    apply (rule exI[of _ w1], rule exI[of _ w2])
    using w1(1,4,5,9) w2(1,2,3,4,5,7) w1(6,7) shape
    by (simp add: byname bysize)
qed

theorem sort_toggle_round_trip_witness:
  "sort_contract (sort_Slice sample_lib) \<and>
   length (heap (snd (scanDirectory sample_lib ''.'' demo_fs empty_machine))) < 10 \<and>
   (\<exists>w w1 w2. session sample_lib 10 ''.'' demo_fs [Key ''down''] = Inr w \<and>
        \<not> deleting (mdl w) \<and> sortBy (mdl w) = ''size'' \<and> cursor (mdl w) = 1 \<and>
        Children (heap (mach w) ! 0) = [2, 1] \<and>
        deliver sample_lib 10 w (Key ''s'') = Inr (w1, False) \<and>
        sortBy (mdl w1) = ''name'' \<and> cursor (mdl w1) = 0 \<and>
        Children (heap (mach w1) ! 0) = [1, 2] \<and>
        deliver sample_lib 10 w1 (Key ''s'') = Inr (w2, False) \<and>
        sortBy (mdl w2) = ''size'' \<and> cursor (mdl w2) = 0 \<and>
        Children (heap (mach w2) ! 0) = [2, 1] \<and>
        same_shape (heap (mach w)) (heap (mach w2)))"
proof -
  have nodes: "length (heap (snd (scanDirectory sample_lib ''.'' demo_fs empty_machine))) < 10"
    by (simp add: demo_nodes)
  obtain w where w: "session sample_lib 10 ''.'' demo_fs [Key ''down''] = Inr w"
    using session_ok[OF sort_contract_sample nodes] by blast
  have facts: "\<not> deleting (mdl w)" "sortBy (mdl w) = ''size''" "cursor (mdl w) = 1"
      "Children (heap (mach w) ! 0) = [2, 1]"
    using w by (auto simp: demo_scanned run_eval)
  from sort_toggle_round_trip[OF sort_contract_sample nodes w facts(1,2)]
  obtain w1 w2 where t: "deliver sample_lib 10 w (Key ''s'') = Inr (w1, False)"
      "sortBy (mdl w1) = ''name''" "cursor (mdl w1) = 0"
      "deliver sample_lib 10 w1 (Key ''s'') = Inr (w2, False)"
      "sortBy (mdl w2) = ''size''" "cursor (mdl w2) = 0"
      "same_shape (heap (mach w)) (heap (mach w2))"
    by blast
  have c1: "Children (heap (mach w1) ! 0) = [1, 2]"
    using w t(1) by (auto simp: demo_scanned run_eval)
  have c2: "Children (heap (mach w2) ! 0) = [2, 1]"
    using w t(1) t(4) by (auto simp: demo_scanned run_eval)
  show ?thesis
    using sort_contract_sample nodes w facts t c1 c2 by blast
qed

subsection \<open>Failures during the scan\<close>

lemma loop_step:
  assumes pre: "d < length (heap s)" "node_ok (heap s) d" "IsDir (heap s ! d)"
      "tot = child_sum (heap s) d"
    and cp: "calc_post (Some d) s (Inr c, s1)"
    and att: "attach_child d c tot s1 = (tot1, s2)"
  shows "c = length (heap s)" and "c < length (heap s1)"
    and "\<And>b. b < c \<Longrightarrow> heap s1 ! b = heap s ! b"
    and "new_ok c (heap s1)" and "length (heap s2) = length (heap s1)"
    and "\<And>b. b \<noteq> d \<Longrightarrow> heap s2 ! b = heap s1 ! b"
    and "node_ok (heap s2) d" and "IsDir (heap s2 ! d)"
    and "Children (heap s2 ! d) = Children (heap s ! d) @ [c]"
    and "tot1 = child_sum (heap s2) d"
proof -
  from cp have c: "c = length (heap s)" and clen: "c < length (heap s1)"
    and frame1: "\<And>b. b < c \<Longrightarrow> heap s1 ! b = heap s ! b"
    and parc: "Parent (heap s1 ! c) = Some d" and new1: "new_ok c (heap s1)"
    by (auto simp: calc_post_def)
  have dc: "d < c" using pre(1) c by simp
  have d1: "heap s1 ! d = heap s ! d" using frame1 dc by simp
  have kids_old: "heap s1 ! x = heap s ! x \<and> x < c" if "x \<in> set (Children (heap s ! d))" for x
    using that pre(2) frame1 c by (auto simp: node_ok_def)
  have ok1: "node_ok (heap s1) d"
    by (rule node_ok_cong[OF pre(2)]) (use clen c kids_old in \<open>auto simp: d1\<close>)
  have fresh: "c \<notin> set (Children (heap s1 ! d))"
    using kids_old by (auto simp: d1)
  have sum1: "tot = child_sum (heap s1) d"
    unfolding pre(4)
    by (rule child_sum_cong[symmetric]) (use kids_old in \<open>auto simp: d1\<close>)
  have dir1: "IsDir (heap s1 ! d)" using pre(3) d1 by simp
  note a = attach_child_post[OF att dc clen ok1 dir1 parc fresh sum1]
  show "c = length (heap s)" by (rule c)
  show "c < length (heap s1)" by (rule clen)
  show "\<And>b. b < c \<Longrightarrow> heap s1 ! b = heap s ! b" by (rule frame1)
  show "new_ok c (heap s1)" by (rule new1)
  show "length (heap s2) = length (heap s1)" by (rule a(1))
  show "\<And>b. b \<noteq> d \<Longrightarrow> heap s2 ! b = heap s1 ! b" by (rule a(2))
  show "node_ok (heap s2) d" by (rule a(3))
  show "IsDir (heap s2 ! d)" by (rule a(4))
  show "Children (heap s2 ! d) = Children (heap s ! d) @ [c]" using a(6) d1 by simp
  show "tot1 = child_sum (heap s2) d" by (rule a(7))
qed

lemma in_tree_frame:
  assumes t: "in_tree h r a" and new: "new_ok n h" and r: "n \<le> r" "r < length h"
    and same: "\<And>b. r \<le> b \<Longrightarrow> b < length h \<Longrightarrow> h' ! b = h ! b"
  shows "in_tree h' r a \<and> r \<le> a \<and> a < length h"
  using t
proof (induction rule: in_tree.induct)
  case in_tree_root
  then show ?case using r by (simp add: in_tree.in_tree_root)
next
  case (in_tree_child a c)
  then have a: "in_tree h' r a" "r \<le> a" "a < length h" by simp_all
  have "node_ok h a" using new a r by (simp add: new_ok_def)
  then have c: "a < c" "c < length h" using in_tree_child.hyps(2) by (auto simp: node_ok_def)
  have "c \<in> set (Children (h' ! a))" using same[OF a(2,3)] in_tree_child.hyps(2) by simp
  then show ?case using in_tree.in_tree_child[OF a(1)] c a(2) by simp
qed

lemma error_node_frame:
  assumes "\<exists>c0 \<in> set (Children (h ! d)). \<exists>c. in_tree h c0 c \<and> error_node h c p err"
    and ok: "node_ok h d" and new: "new_ok (Suc d) h"
    and same: "\<And>b. d < b \<Longrightarrow> b < length h \<Longrightarrow> h' ! b = h ! b"
    and sub: "set (Children (h ! d)) \<subseteq> set (Children (h' ! d))"
  shows "\<exists>c0 \<in> set (Children (h' ! d)). \<exists>c. in_tree h' c0 c \<and> error_node h' c p err"
proof -
  from assms(1) obtain c0 c where c0: "c0 \<in> set (Children (h ! d))"
    and c: "in_tree h c0 c" "error_node h c p err" by blast
  have b0: "d < c0" "c0 < length h" using ok c0 by (auto simp: node_ok_def)
  have "in_tree h' c0 c \<and> c0 \<le> c \<and> c < length h"
    by (rule in_tree_frame[OF c(1) new]) (use b0 same in auto)
  then have t: "in_tree h' c0 c" and "h' ! c = h ! c" using same[of c] b0 by simp_all
  then have "error_node h' c p err" using c(2) by (simp add: error_node_def)
  moreover have "c0 \<in> set (Children (h' ! d))" using c0 sub by blast
  ultimately show ?thesis using t by blast
qed

lemma scanEntries_skip:
  "scanEntries L path d (filter (\<lambda>(name, node). stat_ok node) es) tot s =
   scanEntries L path d es tot s"
proof (induction es arbitrary: tot s)
  case Nil
  then show ?case by simp
next
  case (Cons e es)
  obtain name node where e: "e = (name, node)" by (cases e)
  show ?case
  proof (cases "stat_ok node")
    case True
    then show ?thesis
      using Cons.IH by (simp add: e split: prod.splits sum.splits del: calculateDirSizeWithProgress.simps)
  next
    case False
    then obtain err where "node = StatFails err" by (cases node) simp_all
    then show ?thesis using Cons.IH by (simp add: e)
  qed
qed

lemma unreadable_node:
  "fst (calculateDirSizeWithProgress L path parent (UnreadableDir e) s) = Inr (length (heap s))"
  "heap (snd (calculateDirSizeWithProgress L path parent (UnreadableDir e) s)) =
     heap s @ [\<lparr>Path = path, Size = 0, Children = [], Parent = parent, IsDir = True,
                 Error = Some e\<rparr>]"
  by (simp_all add: new_DirInfo_def Let_def)

lemma kept:
  assumes sc: "sort_contract (sort_Slice L)"
  shows "(\<forall>q. parent = Some q \<longrightarrow> q < length (heap s)) \<Longrightarrow>
         (p, err) \<in> set (unreadable L path fs) \<Longrightarrow>
           \<exists>c. in_tree (heap (snd (calculateDirSizeWithProgress L path parent fs s))) (length (heap s)) c \<and>
               error_node (heap (snd (calculateDirSizeWithProgress L path parent fs s))) c p err"
    and "d < length (heap s) \<Longrightarrow> node_ok (heap s) d \<Longrightarrow> IsDir (heap s ! d) \<Longrightarrow>
         tot = child_sum (heap s) d \<Longrightarrow> new_ok (Suc d) (heap s) \<Longrightarrow>
         (\<exists>c0 \<in> set (Children (heap s ! d)). \<exists>c. in_tree (heap s) c0 c \<and> error_node (heap s) c p err) \<or>
         (p, err) \<in> set (concat (map (\<lambda>(name, node). unreadable L (filepath_Join L path name) node) es)) \<Longrightarrow>
           \<exists>c0 \<in> set (Children (heap (snd (scanEntries L path d es tot s)) ! d)).
             \<exists>c. in_tree (heap (snd (scanEntries L path d es tot s))) c0 c \<and>
                 error_node (heap (snd (scanEntries L path d es tot s))) c p err"
  using sc
proof (induction L path parent fs s and L path d es tot s
    rule: calculateDirSizeWithProgress_scanEntries.induct)
  case (1 L path parent err s)
  then show ?case by simp
next
  case (2 L path parent sz s)
  then show ?case by simp
next
  case (3 L path parent e s)
  then have "p = path" "err = e" by simp_all
  then have "error_node (heap (snd (calculateDirSizeWithProgress L path parent (UnreadableDir e) s)))
      (length (heap s)) p err"
    unfolding unreadable_node by (simp add: error_node_def)
  then show ?case using in_tree_root by blast
next
  case (4 L path parent entries s)
  obtain d s1 where n: "new_DirInfo path parent True s = (d, s1)"
    by (cases "new_DirInfo path parent True s")
  note alloc = new_DirInfo_heap[OF n]
  let ?s = "s1\<lparr>dirsCount := dirsCount s1 + 1\<rparr>"
  obtain tot s2 where loop: "scanEntries L path d entries 0 ?s = (tot, s2)"
    by (cases "scanEntries L path d entries 0 ?s")
  have pre: "d < length (heap ?s)" "node_ok (heap ?s) d" "IsDir (heap ?s ! d)"
      "0 = child_sum (heap ?s) d" "new_ok (Suc d) (heap ?s)"
    using "4.prems"(1) by (auto simp: alloc node_ok_def child_sum_def new_ok_def)
  have lp: "loop_post d ?s (tot, s2)"
    using scan_post(2)[OF "4.prems"(3) pre(1-4), of path entries] loop by simp
  then have ok2: "node_ok (heap s2) d" and new2: "new_ok (Suc d) (heap s2)"
    and len2: "d < length (heap s2)"
    by (auto simp: loop_post_def alloc)
  have "\<exists>c0 \<in> set (Children (heap s2 ! d)). \<exists>c. in_tree (heap s2) c0 c \<and> error_node (heap s2) c p err"
    using "4.IH"[OF n[symmetric] pre] "4.prems"(2,3) loop by simp
  define h1 where "h1 = (heap s2)[d := (heap s2 ! d)\<lparr>Size := tot\<rparr>]"
  define h2 where "h2 = h1[d := (h1 ! d)\<lparr>Children := sort_Slice L (bySizeDesc h1) (Children (h1 ! d))\<rparr>]"
  have res: "calculateDirSizeWithProgress L path parent (Directory entries) s = (Inr d, s2\<lparr>heap := h2\<rparr>)"
    using n loop by (simp add: Let_def h1_def h2_def)
  have "set (sort_Slice L (bySizeDesc h1) (Children (h1 ! d))) = set (Children (h1 ! d))"
    using sort_contract_mset[OF "4.prems"(3)] by (metis mset_eq_setD)
  then have kids: "set (Children (heap s2 ! d)) \<subseteq> set (Children (h2 ! d))"
    using len2 by (simp add: h1_def h2_def)
  have same: "h2 ! b = heap s2 ! b" if "d < b" for b
    using that by (simp add: h1_def h2_def)
  from error_node_frame[OF \<open>\<exists>c0 \<in> set (Children (heap s2 ! d)). _\<close> ok2 new2 same kids]
  obtain c0 c where c: "c0 \<in> set (Children (h2 ! d))" "in_tree h2 c0 c" "error_node h2 c p err"
    by blast
  have "in_tree h2 d c0" by (rule in_tree_child[OF in_tree_root c(1)])
  then have "in_tree h2 d c" by (rule in_tree_trans[OF c(2)])
  then show ?case using c(3) res alloc(1) by auto
next
  case (5 L path dirInfo totalSize s)
  then show ?case by simp
next
  case (6 L path dirInfo name node entries totalSize s)
  let ?Q = "\<lambda>h. \<exists>c0 \<in> set (Children (h ! dirInfo)). \<exists>c. in_tree h c0 c \<and> error_node h c p err"
  let ?rest = "(p, err) \<in> set (concat (map (\<lambda>(name, node). unreadable L (filepath_Join L path name) node) entries))"
  obtain r s1 where call:
      "calculateDirSizeWithProgress L (filepath_Join L path name) (Some dirInfo) node s = (r, s1)"
    by (cases "calculateDirSizeWithProgress L (filepath_Join L path name) (Some dirInfo) node s")
  have cp: "calc_post (Some dirInfo) s (r, s1)"
    using scan_post(1)[OF "6.prems"(7), of "Some dirInfo" s "filepath_Join L path name" node]
      "6.prems"(1) call by simp
  show ?case
  proof (cases r)
    case (Inl e)
    have same: "s1 = s" using cp Inl by (simp add: calc_post_def)
    have "node = StatFails e"
      using calc_Inl_iff[of L "filepath_Join L path name" "Some dirInfo" node s e] call Inl by simp
    then have "?Q (heap s) \<or> ?rest" using "6.prems"(6) by simp
    then show ?thesis
      using "6.IH"(2)[OF call[symmetric] Inl] "6.prems"(1-5,7) same call Inl by simp
  next
    case (Inr c1)
    obtain tot1 s2 where att: "attach_child dirInfo c1 totalSize s1 = (tot1, s2)"
      by (cases "attach_child dirInfo c1 totalSize s1")
    note st = loop_step[OF "6.prems"(1-4) cp[unfolded Inr] att]
    have dc: "dirInfo < c1" using st(1) "6.prems"(1) by simp
    have new2: "new_ok (Suc dirInfo) (heap s2)"
    proof (rule new_ok_extend[OF "6.prems"(5)])
      show "length (heap s) \<le> length (heap s2)" using st(1,2,5) by simp
      show "heap s2 ! b = heap s ! b" if "Suc dirInfo \<le> b" "b < length (heap s)" for b
        using that st(3)[of b] st(6)[of b] st(1) by simp
      have "new_ok c1 (heap s2)"
      proof (rule new_ok_extend[OF st(4)])
        show "length (heap s1) \<le> length (heap s2)" using st(5) by simp
        show "heap s2 ! b = heap s1 ! b" if "c1 \<le> b" for b
          using that dc st(6)[of b] by simp
        show "new_ok (length (heap s1)) (heap s2)" using st(5) by (simp add: new_ok_def)
      qed
      then show "new_ok (length (heap s)) (heap s2)" using st(1) by simp
    qed
    have split: "(p, err) \<in> set (concat (map (\<lambda>(name, node).
          unreadable L (filepath_Join L path name) node) ((name, node) # entries))) \<longleftrightarrow>
        (p, err) \<in> set (unreadable L (filepath_Join L path name) node) \<or> ?rest"
      by simp
    have "?Q (heap s2) \<or> ?rest"
    proof -
      consider (old) "?Q (heap s)" | (head) "(p, err) \<in> set (unreadable L (filepath_Join L path name) node)"
        | (rest) ?rest
        using "6.prems"(6) split by blast
      then show ?thesis
      proof cases
        case old
        have "?Q (heap s2)"
        proof (rule error_node_frame[OF old "6.prems"(2,5)])
          show "heap s2 ! b = heap s ! b" if "dirInfo < b" "b < length (heap s)" for b
            using that st(3)[of b] st(6)[of b] st(1) by simp
          show "set (Children (heap s ! dirInfo)) \<subseteq> set (Children (heap s2 ! dirInfo))"
            using st(9) by auto
        qed
        then show ?thesis ..
      next
        case head
        from "6.IH"(1)[OF _ head "6.prems"(7)] "6.prems"(1) call
        obtain c where c: "in_tree (heap s1) c1 c" "error_node (heap s1) c p err"
          using st(1) by auto
        have "in_tree (heap s2) c1 c \<and> c1 \<le> c \<and> c < length (heap s1)"
          by (rule in_tree_frame[OF c(1) st(4) order_refl st(2)]) (use dc st(6) in auto)
        then have t: "in_tree (heap s2) c1 c" and "heap s2 ! c = heap s1 ! c"
          using dc st(6)[of c] by simp_all
        then have "error_node (heap s2) c p err" using c(2) by (simp add: error_node_def)
        moreover have "c1 \<in> set (Children (heap s2 ! dirInfo))" using st(9) by simp
        ultimately have "?Q (heap s2)" using t by blast
        then show ?thesis ..
      next
        case rest
        then show ?thesis ..
      qed
    qed
    then show ?thesis
      using "6.IH"(3)[OF call[symmetric] Inr att[symmetric] _ st(7,8,10) new2] "6.prems"(7)
        st(1,2,5) dc call Inr att by simp
  qed
qed

lemma faulty_heap:
  "heap (snd (scanDirectory sample_lib ''.'' faulty_fs empty_machine)) =
     [\<lparr>Path = ''.'', Size = 7, Children = [2, 1], Parent = None, IsDir = True, Error = None\<rparr>,
      \<lparr>Path = ''./d'', Size = 0, Children = [], Parent = Some 0, IsDir = True,
         Error = Some ''denied''\<rparr>,
      \<lparr>Path = ''./f'', Size = 7, Children = [], Parent = Some 0, IsDir = False, Error = None\<rparr>]"
  by (simp add: scan_eval faulty_fs_def eval_nat_numeral del: calculateDirSizeWithProgress.simps(2,3,4))

text \<open>
  C4. A directory whose listing fails is kept: for every such directory of the file
  system, the scan reports a root from which a node is reached along \<^verbatim>\<open>Children\<close> that
  has the directory's path, carries the error, has no children and has size 0. The call of
  \<open>calculateDirSizeWithProgress\<close> on such a directory returns that node and no error, and
  adds nothing else to the heap. An entry whose \<^verbatim>\<open>os.Stat\<close> fails is skipped: the scan
  of the directory that lists it returns a node, and is the scan of the directory without
  those entries.
\<close>

theorem unreadable_directory_is_kept:
  assumes "sort_contract (sort_Slice L)"
  shows "(\<forall>p err. (p, err) \<in> set (unreadable L path fs) \<longrightarrow>
            (\<exists>r c. fst (scanDirectory L path fs s) = ScanCompleteMsg (Some r) None \<and>
                   in_tree (heap (snd (scanDirectory L path fs s))) r c \<and>
                   error_node (heap (snd (scanDirectory L path fs s))) c p err)) \<and>
         (\<forall>parent e.
            fst (calculateDirSizeWithProgress L path parent (UnreadableDir e) s) =
              Inr (length (heap s)) \<and>
            heap (snd (calculateDirSizeWithProgress L path parent (UnreadableDir e) s)) =
              heap s @ [\<lparr>Path = path, Size = 0, Children = [], Parent = parent, IsDir = True,
                          Error = Some e\<rparr>]) \<and>
         (\<forall>parent entries.
            (\<exists>d. fst (calculateDirSizeWithProgress L path parent (Directory entries) s) = Inr d) \<and>
            calculateDirSizeWithProgress L path parent (Directory entries) s =
            calculateDirSizeWithProgress L path parent
              (Directory (filter (\<lambda>(name, node). stat_ok node) entries)) s)"
proof (intro conjI allI impI)
  fix p err assume mem: "(p, err) \<in> set (unreadable L path fs)"
  let ?s = "s\<lparr>filesCount := 0, dirsCount := 0, currentRoot := None\<rparr>"
  obtain r s1 where run: "calculateDirSizeWithProgress L path None fs ?s = (r, s1)"
    by (cases "calculateDirSizeWithProgress L path None fs ?s")
  have "calc_post None ?s (r, s1)"
    using scan_post(1)[OF assms, of None ?s path fs] run by simp
  moreover have "r \<noteq> Inl e" for e
  proof -
    have "fs \<noteq> StatFails e" using mem by auto
    then show ?thesis using calc_Inl_iff[of L path None fs ?s e] run by simp
  qed
  ultimately obtain d where d: "r = Inr d" "d = length (heap s)"
    by (cases r) (auto simp add: calc_post_def)
  have "\<exists>c. in_tree (heap (snd (calculateDirSizeWithProgress L path None fs ?s))) (length (heap ?s)) c \<and>
      error_node (heap (snd (calculateDirSizeWithProgress L path None fs ?s))) c p err"
    by (rule kept(1)[OF assms _ mem]) simp
  then obtain c where c: "in_tree (heap s1) d c" "error_node (heap s1) c p err"
    unfolding run using d(2) by auto
  have "heap (scanDirectory_final s1) = heap s1"
    by (simp add: scanDirectory_final_def split: option.splits)
  then show "\<exists>r c. fst (scanDirectory L path fs s) = ScanCompleteMsg (Some r) None \<and>
                   in_tree (heap (snd (scanDirectory L path fs s))) r c \<and>
                   error_node (heap (snd (scanDirectory L path fs s))) c p err"
    using run d(1) c by (simp add: scanDirectory_def) blast
next
  fix parent e
  show "fst (calculateDirSizeWithProgress L path parent (UnreadableDir e) s) = Inr (length (heap s))"
    by (rule unreadable_node)
  show "heap (snd (calculateDirSizeWithProgress L path parent (UnreadableDir e) s)) =
      heap s @ [\<lparr>Path = path, Size = 0, Children = [], Parent = parent, IsDir = True,
                  Error = Some e\<rparr>]"
    by (rule unreadable_node)
next
  fix parent entries
  show "\<exists>d. fst (calculateDirSizeWithProgress L path parent (Directory entries) s) = Inr d"
    by (simp add: Let_def split: prod.splits)
  show "calculateDirSizeWithProgress L path parent (Directory entries) s =
      calculateDirSizeWithProgress L path parent
        (Directory (filter (\<lambda>(name, node). stat_ok node) entries)) s"
    by (simp add: scanEntries_skip)
qed

theorem unreadable_directory_is_kept_witness:
  "sort_contract (sort_Slice sample_lib) \<and>
   unreadable sample_lib ''.'' faulty_fs = [(''./d'', ''denied'')] \<and>
   (\<exists>r c. fst (scanDirectory sample_lib ''.'' faulty_fs empty_machine) =
            ScanCompleteMsg (Some r) None \<and>
          in_tree (heap (snd (scanDirectory sample_lib ''.'' faulty_fs empty_machine))) r c \<and>
          error_node (heap (snd (scanDirectory sample_lib ''.'' faulty_fs empty_machine))) c
            ''./d'' ''denied'') \<and>
   heap (snd (scanDirectory sample_lib ''.'' faulty_fs empty_machine)) ! 1 =
     \<lparr>Path = ''./d'', Size = 0, Children = [], Parent = Some 0, IsDir = True,
        Error = Some ''denied''\<rparr> \<and>
   Children (heap (snd (scanDirectory sample_lib ''.'' faulty_fs empty_machine)) ! 0) = [2, 1] \<and>
   calculateDirSizeWithProgress sample_lib ''.'' None faulty_fs empty_machine =
   calculateDirSizeWithProgress sample_lib ''.'' None
     (Directory [(''d'', UnreadableDir ''denied''), (''f'', RegularFile 7)]) empty_machine"
proof -
  have u: "unreadable sample_lib ''.'' faulty_fs = [(''./d'', ''denied'')]"
    by (simp add: faulty_fs_def sample_lib_sel)
  note t = unreadable_directory_is_kept[OF sort_contract_sample, of "''.''" faulty_fs empty_machine]
  have a: "\<exists>r c. fst (scanDirectory sample_lib ''.'' faulty_fs empty_machine) =
            ScanCompleteMsg (Some r) None \<and>
          in_tree (heap (snd (scanDirectory sample_lib ''.'' faulty_fs empty_machine))) r c \<and>
          error_node (heap (snd (scanDirectory sample_lib ''.'' faulty_fs empty_machine))) c
            ''./d'' ''denied''"
    using conjunct1[OF t, rule_format, of "''./d''" "''denied''"] u by simp
  have b: "calculateDirSizeWithProgress sample_lib ''.'' None faulty_fs empty_machine =
      calculateDirSizeWithProgress sample_lib ''.'' None
        (Directory [(''d'', UnreadableDir ''denied''), (''f'', RegularFile 7)]) empty_machine"
    using conjunct2[OF conjunct2[OF t], rule_format, of None
        "[(''x'', StatFails ''gone''), (''d'', UnreadableDir ''denied''), (''f'', RegularFile 7)]"]
    by (simp add: faulty_fs_def)
  show ?thesis
    using sort_contract_sample u a b by (simp add: faulty_heap)
qed

subsection \<open>The preview of the scan in progress\<close>

lemma root_loop_six:
  "root_loop sample_lib ''.'' six_files =
     \<lparr>heap =
        [\<lparr>Path = ''.'', Size = 21, Children = [1, 2, 3, 4, 5, 6], Parent = None, IsDir = True,
            Error = None\<rparr>,
         \<lparr>Path = ''./a'', Size = 1, Children = [], Parent = Some 0, IsDir = False, Error = None\<rparr>,
         \<lparr>Path = ''./b'', Size = 2, Children = [], Parent = Some 0, IsDir = False, Error = None\<rparr>,
         \<lparr>Path = ''./c'', Size = 3, Children = [], Parent = Some 0, IsDir = False, Error = None\<rparr>,
         \<lparr>Path = ''./d'', Size = 4, Children = [], Parent = Some 0, IsDir = False, Error = None\<rparr>,
         \<lparr>Path = ''./e'', Size = 5, Children = [], Parent = Some 0, IsDir = False, Error = None\<rparr>,
         \<lparr>Path = ''./f'', Size = 6, Children = [], Parent = Some 0, IsDir = False, Error = None\<rparr>],
      currentRoot = Some 0,
      progressChan =
        [\<lparr>msg_root = 0, msg_filesScanned = 1, msg_dirsScanned = 1, msg_totalSize = 1\<rparr>,
         \<lparr>msg_root = 0, msg_filesScanned = 2, msg_dirsScanned = 1, msg_totalSize = 3\<rparr>,
         \<lparr>msg_root = 0, msg_filesScanned = 3, msg_dirsScanned = 1, msg_totalSize = 6\<rparr>,
         \<lparr>msg_root = 0, msg_filesScanned = 4, msg_dirsScanned = 1, msg_totalSize = 10\<rparr>,
         \<lparr>msg_root = 0, msg_filesScanned = 5, msg_dirsScanned = 1, msg_totalSize = 15\<rparr>,
         \<lparr>msg_root = 0, msg_filesScanned = 6, msg_dirsScanned = 1, msg_totalSize = 21\<rparr>],
      filesCount = 6, dirsCount = 1\<rparr>"
  by (simp add: root_loop_def six_files_def new_DirInfo_eval scan_eval eval_nat_numeral
      del: calculateDirSizeWithProgress.simps)

text \<open>
  C5. The scan root lists six files of 1 to 6 bytes, in this order. When the loop has
  attached the last of them and sent its progress message, the children of the root are in
  the order of the listing, the smallest first: \<^verbatim>\<open>sort.Slice\<close> runs after the loop only. A
  tick then makes the view list, under \<^verbatim>\<open>Largest items found\<close>, the first five children:
  the files of 1 to 5 bytes, and not the file of 6 bytes. The children are by descending
  size once the call has returned.
\<close>

theorem progress_preview_in_listing_order:
  "Children (heap (root_loop sample_lib ''.'' six_files) ! 0) = [1, 2, 3, 4, 5, 6] \<and>
   map (\<lambda>c. sint (Size (heap (root_loop sample_lib ''.'' six_files) ! c)))
     (Children (heap (root_loop sample_lib ''.'' six_files) ! 0)) = [1, 2, 3, 4, 5, 6] \<and>
   \<not> sorted_wrt (\<lambda>x y. sint (Size (heap (root_loop sample_lib ''.'' six_files) ! y))
                       \<le> sint (Size (heap (root_loop sample_lib ''.'' six_files) ! x)))
       (Children (heap (root_loop sample_lib ''.'' six_files) ! 0)) \<and>
   length (progressChan (root_loop sample_lib ''.'' six_files)) = 6 \<and>
   (\<exists>m s. Update sample_lib 10 initialModel (root_loop sample_lib ''.'' six_files) ScanTickMsg =
            Inr (m, s, [ScanTick]) \<and>
          scanProgress m = Some 0 \<and> heap s = heap (root_loop sample_lib ''.'' six_files) \<and>
          View_largest m s = [1, 2, 3, 4, 5] \<and>
          map (\<lambda>c. sint (Size (heap s ! c))) (View_largest m s) = [1, 2, 3, 4, 5]) \<and>
   Children (heap (snd (calculateDirSizeWithProgress sample_lib ''.'' None (Directory six_files)
     empty_machine)) ! 0) = [6, 5, 4, 3, 2, 1]"
proof -
  have a: "Children (heap (snd (calculateDirSizeWithProgress sample_lib ''.'' None
      (Directory six_files) empty_machine)) ! 0) = [6, 5, 4, 3, 2, 1]"
    by (simp add: six_files_def scan_eval eval_nat_numeral
        del: calculateDirSizeWithProgress.simps)
  show ?thesis
    unfolding root_loop_six
    by (simp add: a View_largest_def initialModel_def eval_nat_numeral upt_rec
        del: calculateDirSizeWithProgress.simps)
qed

subsection \<open>Leaving a directory that its parent no longer lists\<close>

text \<open>
  C6 at the state \<open>stale_model\<close>, \<open>stale_machine\<close>: the current node is the directory at
  address 2, whose parent is the root, and the root does not list it. The key \<^verbatim>\<open>left\<close>
  makes the root the current node and leaves the cursor at 1: it does not set it to 0.
\<close>

theorem exit_not_found_cursor_not_reset:
  "\<not> scanning stale_model \<and> \<not> deleting stale_model \<and>
   currentDir stale_model = Some 2 \<and> Parent (heap stale_machine ! 2) = Some 0 \<and>
   indexOf 2 (Children (heap stale_machine ! 0)) = None \<and>
   Update sample_lib 10 stale_model stale_machine (KeyMsg ''left'') =
     Inr (stale_model\<lparr>currentDir := Some 0\<rparr>, stale_machine, []) \<and>
   cursor (stale_model\<lparr>currentDir := Some 0\<rparr>) = 1"
  by (simp add: stale_model_def stale_machine_def initialModel_def keyPressed_def
      switch_label_def)

text \<open>
  C6, with the cursor kept. In a state where the current node has a parent whose children do not
  hold it, the exit keys make the parent the current node and leave the cursor, and all
  the rest of the model and the heap, as they are.
\<close>

theorem exit_not_found_keeps_cursor:
  assumes "\<not> scanning m" and "\<not> deleting m"
    and "currentDir m = Some cur" and "Parent (heap s ! cur) = Some parent"
    and "cur \<notin> set (Children (heap s ! parent))"
    and "key = ''left'' \<or> key = ''h'' \<or> key = ''backspace''"
  shows "Update L stack m s (KeyMsg key) = Inr (m\<lparr>currentDir := Some parent\<rparr>, s, []) \<and>
         cursor (m\<lparr>currentDir := Some parent\<rparr>) = cursor m"
proof -
  have "indexOf cur (Children (heap s ! parent)) = None"
    using assms(5) by (simp add: indexOf_None)
  moreover have "switch_label key = CaseLeft"
    using assms(6) by (auto simp: switch_label_def)
  ultimately show ?thesis
    using assms(1-4) by (simp add: keyPressed_def)
qed

theorem exit_not_found_keeps_cursor_witness:
  "\<not> scanning stale_model \<and> \<not> deleting stale_model \<and>
   currentDir stale_model = Some 2 \<and> Parent (heap stale_machine ! 2) = Some 0 \<and>
   2 \<notin> set (Children (heap stale_machine ! 0)) \<and>
   Update sample_lib 10 stale_model stale_machine (KeyMsg ''backspace'') =
     Inr (stale_model\<lparr>currentDir := Some 0\<rparr>, stale_machine, []) \<and>
   cursor (stale_model\<lparr>currentDir := Some 0\<rparr>) = cursor stale_model"
proof -
  have pre: "\<not> scanning stale_model" "\<not> deleting stale_model"
      "currentDir stale_model = Some 2" "Parent (heap stale_machine ! 2) = Some 0"
      "2 \<notin> set (Children (heap stale_machine ! 0))"
    by (simp_all add: stale_model_def stale_machine_def initialModel_def)
  from exit_not_found_keeps_cursor[OF pre, of "''backspace''" sample_lib 10]
  show ?thesis using pre by simp
qed

subsection \<open>What the scan returns\<close>

lemma mirrors_entries_snoc:
  assumes "mirrors_entries L h cs path d es" "stat_ok node"
    "mirrors L h c (filepath_Join L path name) (Some d) node"
  shows "mirrors_entries L h (cs @ [c]) path d (es @ [(name, node)])"
  using assms
proof (induction es arbitrary: cs)
  case Nil
  then show ?case by simp
next
  case (Cons e es)
  obtain n0 x0 where e: "e = (n0, x0)" by (cases e)
  show ?case
  proof (cases "stat_ok x0")
    case True
    then show ?thesis using Cons by (cases cs) (simp_all add: e)
  next
    case False
    then show ?thesis using Cons by (simp add: e)
  qed
qed

lemma mirrors_entries_skip:
  assumes "\<not> stat_ok node"
  shows "mirrors_entries L h cs path d (es @ [(name, node)]) = mirrors_entries L h cs path d es"
  using assms
proof (induction es arbitrary: cs)
  case Nil
  then show ?case by simp
next
  case (Cons e es)
  obtain n0 x0 where e: "e = (n0, x0)" by (cases e)
  show ?case using Cons by (cases cs) (simp_all add: e)
qed

lemma mirrors_frame:
  "new_ok n h \<Longrightarrow> n \<le> c \<Longrightarrow> length h \<le> length h' \<Longrightarrow>
   (\<forall>b. c \<le> b \<longrightarrow> b < length h \<longrightarrow> h' ! b = h ! b) \<Longrightarrow>
   mirrors L h c path parent node \<Longrightarrow> mirrors L h' c path parent node"
  "new_ok n h \<Longrightarrow> n \<le> Suc d \<Longrightarrow> length h \<le> length h' \<Longrightarrow>
   (\<forall>x \<in> set cs. d < x \<and> x < length h) \<Longrightarrow>
   (\<forall>b. d < b \<longrightarrow> b < length h \<longrightarrow> h' ! b = h ! b) \<Longrightarrow>
   mirrors_entries L h cs path d entries \<Longrightarrow> mirrors_entries L h' cs path d entries"
proof (induction L h c path parent node and L h cs path d entries
    rule: mirrors_mirrors_entries.induct)
  case (1 L h c path parent err)
  then show ?case by simp
next
  case (2 L h c path parent sz)
  then show ?case by simp
next
  case (3 L h c path parent err)
  then show ?case by simp
next
  case (4 L h c path parent entries)
  have c: "c < length h" and m: "mirrors_entries L h (sort (Children (h ! c))) path c entries"
    using "4.prems"(5) by simp_all
  have same: "h' ! c = h ! c" using "4.prems"(4) c by simp
  have ok: "node_ok h c" using "4.prems"(1,2) c by (simp add: new_ok_def)
  have kids: "c < x \<and> x < length h" if "x \<in> set (Children (h ! c))" for x
    using ok that by (auto simp: node_ok_def)
  have kid_same: "h' ! x = h ! x" if "x \<in> set (Children (h ! c))" for x
    using kids[OF that] "4.prems"(4) by simp
  have sum: "child_sum h' c = child_sum h c"
    by (rule child_sum_cong) (simp_all add: same kid_same)
  have "mirrors_entries L h' (sort (Children (h ! c))) path c entries"
    by (rule "4.IH"[OF "4.prems"(1) _ "4.prems"(3) _ _ m])
      (use "4.prems"(2,4) kids in auto)
  then show ?case using "4.prems"(3,5) same sum c by simp
next
  case (5 L h cs path d)
  then show ?case by simp
next
  case (6 L h cs path d name node entries)
  show ?case
  proof (cases "stat_ok node")
    case False
    then show ?thesis using "6.IH"(3)[OF False "6.prems"(1-5)] "6.prems"(6) by simp
  next
    case True
    then obtain c rest where cs: "cs = c # rest"
      and mc: "mirrors L h c (filepath_Join L path name) (Some d) node"
      and mr: "mirrors_entries L h rest path d entries"
      using "6.prems"(6) by (cases cs) simp_all
    have c: "d < c" "c < length h" using "6.prems"(4) cs by simp_all
    have "mirrors L h' c (filepath_Join L path name) (Some d) node"
      by (rule "6.IH"(1)[OF True cs "6.prems"(1) _ "6.prems"(3) _ mc])
        (use c "6.prems"(2,5) in auto)
    moreover have "mirrors_entries L h' rest path d entries"
      by (rule "6.IH"(2)[OF True cs "6.prems"(1,2,3) _ "6.prems"(5) mr])
        (use "6.prems"(4) cs in auto)
    ultimately show ?thesis using True cs by simp
  qed
qed

lemma file_node:
  "fst (calculateDirSizeWithProgress L path parent (RegularFile sz) s) = Inr (length (heap s))"
  "heap (snd (calculateDirSizeWithProgress L path parent (RegularFile sz) s)) =
     heap s @ [\<lparr>Path = path, Size = sz, Children = [], Parent = parent, IsDir = False,
                 Error = None\<rparr>]"
  by (simp_all add: new_DirInfo_def Let_def)

lemma attach_child_fields:
  assumes "attach_child d c tot s = (tot1, s2)" "d < length (heap s)"
  shows "Path (heap s2 ! d) = Path (heap s ! d)" and "Error (heap s2 ! d) = Error (heap s ! d)"
  using assms by (auto simp: attach_child_def Let_def split: if_splits)

lemma scan_mirrors:
  assumes sc: "sort_contract (sort_Slice L)"
  shows "(\<forall>q. parent = Some q \<longrightarrow> q < length (heap s)) \<Longrightarrow> stat_ok fs \<Longrightarrow>
           mirrors L (heap (snd (calculateDirSizeWithProgress L path parent fs s)))
             (length (heap s)) path parent fs"
    and "d < length (heap s) \<Longrightarrow> node_ok (heap s) d \<Longrightarrow> IsDir (heap s ! d) \<Longrightarrow>
         tot = child_sum (heap s) d \<Longrightarrow> new_ok (Suc d) (heap s) \<Longrightarrow>
         sorted (Children (heap s ! d)) \<Longrightarrow>
           sorted (Children (heap (snd (scanEntries L path d es tot s)) ! d)) \<and>
           Path (heap (snd (scanEntries L path d es tot s)) ! d) = Path (heap s ! d) \<and>
           Error (heap (snd (scanEntries L path d es tot s)) ! d) = Error (heap s ! d) \<and>
           (\<forall>es0. mirrors_entries L (heap s) (Children (heap s ! d)) path d es0 \<longrightarrow>
              mirrors_entries L (heap (snd (scanEntries L path d es tot s)))
                (Children (heap (snd (scanEntries L path d es tot s)) ! d)) path d (es0 @ es))"
  using sc
proof (induction L path parent fs s and L path d es tot s
    rule: calculateDirSizeWithProgress_scanEntries.induct)
  case (1 L path parent err s)
  then show ?case by simp
next
  case (2 L path parent sz s)
  show ?case unfolding file_node by simp
next
  case (3 L path parent err s)
  show ?case unfolding unreadable_node by simp
next
  case (4 L path parent entries s)
  note sc = "4.prems"(3)
  obtain d s1 where n: "new_DirInfo path parent True s = (d, s1)"
    by (cases "new_DirInfo path parent True s")
  note alloc = new_DirInfo_heap[OF n]
  let ?s = "s1\<lparr>dirsCount := dirsCount s1 + 1\<rparr>"
  obtain tot s2 where loop: "scanEntries L path d entries 0 ?s = (tot, s2)"
    by (cases "scanEntries L path d entries 0 ?s")
  have pre: "d < length (heap ?s)" "node_ok (heap ?s) d" "IsDir (heap ?s ! d)"
      "0 = child_sum (heap ?s) d" "new_ok (Suc d) (heap ?s)" "sorted (Children (heap ?s ! d))"
    using "4.prems"(1) by (auto simp: alloc node_ok_def child_sum_def new_ok_def)
  have lp: "loop_post d ?s (tot, s2)"
    using scan_post(2)[OF sc pre(1-4), of path entries] loop by simp
  then have ok2: "node_ok (heap s2) d" and new2: "new_ok (Suc d) (heap s2)"
    and len2: "d < length (heap s2)" and dir2: "IsDir (heap s2 ! d)"
    and par2: "Parent (heap s2 ! d) = parent" and tot: "tot = child_sum (heap s2) d"
    by (auto simp: loop_post_def alloc)
  note ih0 = "4.IH"[OF n[symmetric] pre sc, unfolded loop snd_conv]
  have ih: "sorted (Children (heap s2 ! d))" "Path (heap s2 ! d) = path"
      "Error (heap s2 ! d) = None"
    using ih0 by (simp_all add: alloc)
  have "mirrors_entries L (heap ?s) (Children (heap ?s ! d)) path d []"
    by (simp add: alloc)
  then have ih4: "mirrors_entries L (heap s2) (Children (heap s2 ! d)) path d entries"
    using ih0[THEN conjunct2, THEN conjunct2, THEN conjunct2, rule_format, of "[]"] by simp
  define h1 where "h1 = (heap s2)[d := (heap s2 ! d)\<lparr>Size := tot\<rparr>]"
  define h2 where "h2 = h1[d := (h1 ! d)\<lparr>Children := sort_Slice L (bySizeDesc h1) (Children (h1 ! d))\<rparr>]"
  have res: "calculateDirSizeWithProgress L path parent (Directory entries) s = (Inr d, s2\<lparr>heap := h2\<rparr>)"
    using n loop by (simp add: Let_def h1_def h2_def)
  have kids: "d < x \<and> x < length (heap s2)" if "x \<in> set (Children (heap s2 ! d))" for x
    using ok2 that by (auto simp: node_ok_def)
  have same: "h2 ! b = heap s2 ! b" if "d < b" for b
    using that by (simp add: h1_def h2_def)
  have ms: "mset (Children (h2 ! d)) = mset (Children (heap s2 ! d))"
    using len2 sort_contract_mset[OF sc] by (simp add: h1_def h2_def)
  have srt: "sort (Children (h2 ! d)) = Children (heap s2 ! d)"
    by (rule properties_for_sort[OF _ ih(1)]) (simp add: ms)
  have sum: "child_sum h2 d = child_sum (heap s2) d"
    by (rule child_sum_cong[OF ms]) (use kids same in auto)
  have fields: "Path (h2 ! d) = path" "Parent (h2 ! d) = parent" "IsDir (h2 ! d)"
      "Error (h2 ! d) = None" "Size (h2 ! d) = tot" "length h2 = length (heap s2)"
    using len2 ih(2,3) par2 dir2 by (simp_all add: h1_def h2_def)
  have "mirrors_entries L h2 (Children (heap s2 ! d)) path d entries"
    by (rule mirrors_frame(2)[OF new2 order_refl _ _ _ ih4])
      (use kids same fields(6) in auto)
  then have "mirrors L h2 d path parent (Directory entries)"
    using fields len2 sum tot srt by simp
  then show ?case using res alloc(1) by simp
next
  case (5 L path dirInfo totalSize s)
  then show ?case by simp
next
  case (6 L path dirInfo name node entries totalSize s)
  note sc = "6.prems"(7)
  obtain r s1 where call:
      "calculateDirSizeWithProgress L (filepath_Join L path name) (Some dirInfo) node s = (r, s1)"
    by (cases "calculateDirSizeWithProgress L (filepath_Join L path name) (Some dirInfo) node s")
  have cp: "calc_post (Some dirInfo) s (r, s1)"
    using scan_post(1)[OF sc, of "Some dirInfo" s "filepath_Join L path name" node]
      "6.prems"(1) call by simp
  show ?case
  proof (cases r)
    case (Inl e)
    have same: "s1 = s" using cp Inl by (simp add: calc_post_def)
    have "node = StatFails e"
      using calc_Inl_iff[of L "filepath_Join L path name" "Some dirInfo" node s e] call Inl by simp
    then have skip: "\<not> stat_ok node" by simp
    have eq: "scanEntries L path dirInfo ((name, node) # entries) totalSize s =
        scanEntries L path dirInfo entries totalSize s"
      using call Inl same by simp
    note ih = "6.IH"(2)[OF call[symmetric] Inl, unfolded same, OF "6.prems"(1-7)]
    have "mirrors_entries L (heap (snd (scanEntries L path dirInfo entries totalSize s)))
        (Children (heap (snd (scanEntries L path dirInfo entries totalSize s)) ! dirInfo)) path dirInfo
        (es0 @ (name, node) # entries)"
      if "mirrors_entries L (heap s) (Children (heap s ! dirInfo)) path dirInfo es0" for es0
    proof -
      have "mirrors_entries L (heap s) (Children (heap s ! dirInfo)) path dirInfo (es0 @ [(name, node)])"
        using that by (simp add: mirrors_entries_skip[OF skip])
      then show ?thesis using ih[THEN conjunct2, THEN conjunct2, THEN conjunct2, rule_format,
            of "es0 @ [(name, node)]"] by simp
    qed
    then show ?thesis unfolding eq using ih by blast
  next
    case (Inr c1)
    obtain tot1 s2 where att: "attach_child dirInfo c1 totalSize s1 = (tot1, s2)"
      by (cases "attach_child dirInfo c1 totalSize s1")
    note st = loop_step[OF "6.prems"(1-4) cp[unfolded Inr] att]
    have dc: "dirInfo < c1" using st(1) "6.prems"(1) by simp
    have ok: "stat_ok node"
      using calc_Inl_iff[of L "filepath_Join L path name" "Some dirInfo" node s] call Inr
      by (cases node) auto
    have eq: "scanEntries L path dirInfo ((name, node) # entries) totalSize s =
        scanEntries L path dirInfo entries tot1 s2"
      using call Inr att by simp
    have d1: "heap s1 ! dirInfo = heap s ! dirInfo" using st(3) dc by simp
    have newc: "new_ok c1 (heap s2)"
    proof (rule new_ok_extend[OF st(4)])
      show "length (heap s1) \<le> length (heap s2)" using st(5) by simp
      show "heap s2 ! b = heap s1 ! b" if "c1 \<le> b" for b
        using that dc st(6)[of b] by simp
      show "new_ok (length (heap s1)) (heap s2)" using st(5) by (simp add: new_ok_def)
    qed
    have new2: "new_ok (Suc dirInfo) (heap s2)"
    proof (rule new_ok_extend[OF "6.prems"(5)])
      show "length (heap s) \<le> length (heap s2)" using st(1,2,5) by simp
      show "heap s2 ! b = heap s ! b" if "Suc dirInfo \<le> b" "b < length (heap s)" for b
        using that st(3)[of b] st(6)[of b] st(1) by simp
      show "new_ok (length (heap s)) (heap s2)" using newc st(1) by simp
    qed
    have kids: "dirInfo < x \<and> x < length (heap s)" if "x \<in> set (Children (heap s ! dirInfo))" for x
      using "6.prems"(2) that by (auto simp: node_ok_def)
    have sorted2: "sorted (Children (heap s2 ! dirInfo))"
      using "6.prems"(6) kids st(1) by (auto simp: st(9) sorted_append less_imp_le)
    have len2: "dirInfo < length (heap s2)" using st(2,5) dc by simp
    have f2: "Path (heap s2 ! dirInfo) = Path (heap s ! dirInfo)"
        "Error (heap s2 ! dirInfo) = Error (heap s ! dirInfo)"
      using attach_child_fields[OF att] st(2) dc d1 by simp_all
    note ih = "6.IH"(3)[OF call[symmetric] Inr att[symmetric] len2 st(7,8,10) new2 sorted2 sc]
    have head: "mirrors L (heap s2) c1 (filepath_Join L path name) (Some dirInfo) node"
    proof -
      have "mirrors L (heap s1) c1 (filepath_Join L path name) (Some dirInfo) node"
        using "6.IH"(1)[OF _ ok sc] "6.prems"(1) call st(1) by simp
      then show ?thesis
        by (rule mirrors_frame(1)[OF st(4) order_refl, rotated 2])
          (use st(5,6) dc in auto)
    qed
    have "mirrors_entries L (heap (snd (scanEntries L path dirInfo entries tot1 s2)))
        (Children (heap (snd (scanEntries L path dirInfo entries tot1 s2)) ! dirInfo)) path dirInfo
        (es0 @ (name, node) # entries)"
      if m: "mirrors_entries L (heap s) (Children (heap s ! dirInfo)) path dirInfo es0" for es0
    proof -
      have "mirrors_entries L (heap s2) (Children (heap s ! dirInfo)) path dirInfo es0"
      proof (rule mirrors_frame(2)[OF "6.prems"(5) order_refl _ _ _ m])
        show "length (heap s) \<le> length (heap s2)" using st(1,2,5) by simp
        show "\<forall>x \<in> set (Children (heap s ! dirInfo)). dirInfo < x \<and> x < length (heap s)"
          using kids by blast
        show "\<forall>b. dirInfo < b \<longrightarrow> b < length (heap s) \<longrightarrow> heap s2 ! b = heap s ! b"
          using st(3) st(6) st(1) by simp
      qed
      then have "mirrors_entries L (heap s2) (Children (heap s2 ! dirInfo)) path dirInfo
          (es0 @ [(name, node)])"
        unfolding st(9) by (rule mirrors_entries_snoc[OF _ ok head])
      then show ?thesis using ih[THEN conjunct2, THEN conjunct2, THEN conjunct2, rule_format,
            of "es0 @ [(name, node)]"] by simp
    qed
    then show ?thesis unfolding eq using ih f2 by simp
  qed
qed

text \<open>
  C2. The scan reports \<^verbatim>\<open>(nil, err)\<close> exactly when \<^verbatim>\<open>os.Stat\<close> fails on the scan root, with
  the error of that \<^verbatim>\<open>os.Stat\<close> and without allocating a node. On every other file system,
  whatever fails below the root, it reports no error and a root that is the node allocated
  first. With a \<^verbatim>\<open>sort.Slice\<close> that meets its contract, the root is a node of the heap,
  what the heap held before is as it was, and the tree at the root mirrors the file
  system: a node for every entry whose \<^verbatim>\<open>os.Stat\<close> succeeds, with the path the scanner
  joined, its parent, its size and, for a directory that cannot be listed, the error and no
  children; the entries whose \<^verbatim>\<open>os.Stat\<close> fails have no node.
\<close>

theorem scanDirectory_fatal_iff:
  "((\<exists>err. fst (scanDirectory L path fs s) = ScanCompleteMsg None (Some err)) \<longleftrightarrow>
      (\<exists>err. fs = StatFails err)) \<and>
   (\<forall>err. fs = StatFails err \<longrightarrow>
      fst (scanDirectory L path fs s) = ScanCompleteMsg None (Some err) \<and>
      heap (snd (scanDirectory L path fs s)) = heap s) \<and>
   ((\<forall>err. fs \<noteq> StatFails err) \<longrightarrow>
      (\<exists>root. fst (scanDirectory L path fs s) = ScanCompleteMsg (Some root) None)) \<and>
   ((\<forall>err. fs \<noteq> StatFails err) \<longrightarrow>
      fst (scanDirectory L path fs s) = ScanCompleteMsg (Some (length (heap s))) None) \<and>
   (sort_contract (sort_Slice L) \<longrightarrow> (\<forall>err. fs \<noteq> StatFails err) \<longrightarrow>
      length (heap s) < length (heap (snd (scanDirectory L path fs s))) \<and>
      (\<forall>b < length (heap s). heap (snd (scanDirectory L path fs s)) ! b = heap s ! b) \<and>
      mirrors L (heap (snd (scanDirectory L path fs s))) (length (heap s)) path None fs)"
proof -
  let ?s = "s\<lparr>filesCount := 0, dirsCount := 0, currentRoot := None\<rparr>"
  obtain r s1 where run: "calculateDirSizeWithProgress L path None fs ?s = (r, s1)"
    by (cases "calculateDirSizeWithProgress L path None fs ?s")
  have r: "r = Inl err \<longleftrightarrow> fs = StatFails err" for err
    using calc_Inl_iff[of L path None fs ?s err] run by simp
  have final: "heap (scanDirectory_final s1) = heap s1"
    by (simp add: scanDirectory_final_def split: option.splits)
  show ?thesis
  proof (cases r)
    case (Inl e)
    then have fs: "fs = StatFails e" using r by simp
    then have "s1 = ?s" using run by simp
    then show ?thesis using run Inl fs by (simp add: scanDirectory_def)
  next
    case (Inr root)
    then have ok: "\<forall>err. fs \<noteq> StatFails err" using r by auto
    then have st: "stat_ok fs" by (cases fs) simp_all
    have root: "root = length (heap s)"
      using run Inr by (cases fs) (auto simp: new_DirInfo_def Let_def split: prod.splits)
    have res: "scanDirectory L path fs s = (ScanCompleteMsg (Some root) None, scanDirectory_final s1)"
      using run Inr by (simp add: scanDirectory_def)
    have part: "length (heap s) < length (heap s1) \<and>
        (\<forall>b < length (heap s). heap s1 ! b = heap s ! b) \<and>
        mirrors L (heap s1) (length (heap s)) path None fs"
      if sc: "sort_contract (sort_Slice L)"
    proof -
      have "calc_post None ?s (Inr root, s1)"
        using scan_post(1)[OF sc, of None ?s path fs] run Inr by simp
      then have "length (heap s) < length (heap s1)"
          "\<forall>b < length (heap s). heap s1 ! b = heap s ! b"
        by (simp_all add: calc_post_def)
      moreover have "mirrors L (heap s1) (length (heap s)) path None fs"
        using scan_mirrors(1)[OF sc _ st, of None ?s path] run by simp
      ultimately show ?thesis by simp
    qed
    show ?thesis
      unfolding res fst_conv snd_conv final using ok root part by simp
  qed
qed

theorem scanDirectory_fatal_iff_witness:
  "fst (scanDirectory sample_lib ''.'' (StatFails ''no such file'') empty_machine) =
     ScanCompleteMsg None (Some ''no such file'') \<and>
   heap (snd (scanDirectory sample_lib ''.'' (StatFails ''no such file'') empty_machine)) = [] \<and>
   (\<exists>root. fst (scanDirectory sample_lib ''.''
       (Directory [(''x'', StatFails ''gone''), (''d'', UnreadableDir ''denied'')]) empty_machine) =
     ScanCompleteMsg (Some root) None) \<and>
   sort_contract (sort_Slice sample_lib) \<and>
   fst (scanDirectory sample_lib ''.'' faulty_fs empty_machine) = ScanCompleteMsg (Some 0) None \<and>
   mirrors sample_lib (heap (snd (scanDirectory sample_lib ''.'' faulty_fs empty_machine))) 0
     ''.'' None faulty_fs \<and>
   heap (snd (scanDirectory sample_lib ''.'' faulty_fs empty_machine)) =
     [\<lparr>Path = ''.'', Size = 7, Children = [2, 1], Parent = None, IsDir = True, Error = None\<rparr>,
      \<lparr>Path = ''./d'', Size = 0, Children = [], Parent = Some 0, IsDir = True,
         Error = Some ''denied''\<rparr>,
      \<lparr>Path = ''./f'', Size = 7, Children = [], Parent = Some 0, IsDir = False, Error = None\<rparr>]"
proof -
  have a: "fst (scanDirectory sample_lib ''.'' (StatFails ''no such file'') empty_machine) =
      ScanCompleteMsg None (Some ''no such file'') \<and>
    heap (snd (scanDirectory sample_lib ''.'' (StatFails ''no such file'') empty_machine)) = []"
    using scanDirectory_fatal_iff[of sample_lib "''.''" "StatFails ''no such file''" empty_machine]
    by (simp add: empty_machine_def)
  have b: "\<exists>root. fst (scanDirectory sample_lib ''.''
       (Directory [(''x'', StatFails ''gone''), (''d'', UnreadableDir ''denied'')]) empty_machine) =
     ScanCompleteMsg (Some root) None"
    using scanDirectory_fatal_iff[of sample_lib "''.''"
        "Directory [(''x'', StatFails ''gone''), (''d'', UnreadableDir ''denied'')]" empty_machine]
    by simp
  have ok: "\<forall>err. faulty_fs \<noteq> StatFails err" by (simp add: faulty_fs_def)
  have len: "length (heap empty_machine) = 0" by (simp add: empty_machine_def)
  have c: "fst (scanDirectory sample_lib ''.'' faulty_fs empty_machine) =
      ScanCompleteMsg (Some 0) None \<and>
    mirrors sample_lib (heap (snd (scanDirectory sample_lib ''.'' faulty_fs empty_machine))) 0
      ''.'' None faulty_fs"
    using scanDirectory_fatal_iff[of sample_lib "''.''" faulty_fs empty_machine]
      sort_contract_sample ok len by simp
  show ?thesis
    using a b c sort_contract_sample faulty_heap by simp
qed

end
